theory Spec2Isabelle
  imports Main "HOL-Library.Sublist" "HOL-Library.AList"
begin

section \<open>Data model\<close>

text \<open>
  A Python \<open>str\<close> is a sequence of Unicode code points.  The word-start markers of the
  tokenizers (U+2581 and U+0120) lie outside the 8-bit \<^typ>\<open>char\<close>, so a string is modelled
  as the list of its code points; \<open>ascii\<close> reads an ASCII literal as such a list.
\<close>

type_synonym ustr = "nat list"

definition ascii :: "string \<Rightarrow> ustr" where
  "ascii s = map of_char s"

text \<open>The exceptions that the modelled code can raise.\<close>

datatype error = IndexError | ValueError | RuntimeError

text \<open>Sequencing of fallible steps: the first exception aborts the rest.\<close>

fun map_err :: "('a \<Rightarrow> error + 'b) \<Rightarrow> 'a list \<Rightarrow> error + 'b list" where
  "map_err f [] = Inr []"
| "map_err f (x # xs) =
     (case f x of
        Inl e \<Rightarrow> Inl e
      | Inr y \<Rightarrow> (case map_err f xs of Inl e \<Rightarrow> Inl e | Inr ys \<Rightarrow> Inr (y # ys)))"

fun fold_err :: "('a \<Rightarrow> 's \<Rightarrow> error + 's) \<Rightarrow> 'a list \<Rightarrow> 's \<Rightarrow> error + 's" where
  "fold_err f [] s = Inr s"
| "fold_err f (x # xs) s =
     (case f x s of Inl e \<Rightarrow> Inl e | Inr s' \<Rightarrow> fold_err f xs s')"

text \<open>Python's \<open>max\<close> of a sequence of lengths: \<open>ValueError\<close> on the empty sequence.\<close>

definition py_max :: "nat list \<Rightarrow> error + nat" where
  "py_max xs = (if xs = [] then Inl ValueError else Inr (fold max xs 0))"


section \<open>Alignment precomputation\<close>

subsection \<open>\<open>_cleanup_token\<close>\<close>

text \<open>
  \<^verbatim>\<open>if token[0] in ["\<dots>", "\<dots>"]: token = " " + token[1:]\<close>
  \<^verbatim>\<open>elif token[0] == "##": token = token[2:]\<close>

  \<open>token[0]\<close> raises \<open>IndexError\<close> on the empty token and is otherwise the one-character
  string \<open>[c]\<close>; the second test compares that one-character string with the
  two-character string \<open>##\<close> (code points 35, 35).
\<close>

definition cleanup_token :: "ustr \<Rightarrow> error + ustr" where
  "cleanup_token token =
     (case token of
        [] \<Rightarrow> Inl IndexError
      | c # rest \<Rightarrow>
          if [c] \<in> set [[9601], [288]] then Inr (32 # drop 1 token)
          else if [c] = [35, 35] then Inr (drop 2 token)
          else Inr token)"

subsection \<open>\<open>_stop_string_get_matching_positions\<close>\<close>

text \<open>
  One pass of the innermost loop, for the loop variable \<open>i0\<close>, the reversed cleaned token
  \<open>rft\<close> and the reversed stop string \<open>rs\<close>.  The state is the pair
  \<open>(matching_positions, possible_end_lengths)\<close>.
\<close>

definition position_step :: "ustr \<Rightarrow> ustr \<Rightarrow> int \<Rightarrow> int list \<times> int list \<Rightarrow> int list \<times> int list" where
  "position_step rft rs i0 acc =
     (let tok = (if i0 < 0 then drop (nat (- i0)) rft else rft);
          i = (if i0 < 0 then 0 else i0);
          stop = take (length tok) (drop (nat i) rs)
      in if prefix stop tok then
           (if i = 0 then (fst acc, snd acc @ [min (int (length tok)) (int (length stop))])
            else (fst acc @ [i], snd acc))
         else acc)"

text \<open>
  The innermost loop \<open>for i in range(1 - len(token), len(stop_string))\<close>; the range is
  taken from the length of the token as it stands in the vocabulary.
\<close>

definition token_positions :: "ustr \<Rightarrow> ustr \<Rightarrow> ustr \<Rightarrow> int list \<times> int list" where
  "token_positions token rft stop_string =
     fold (position_step rft (rev stop_string))
          [1 - int (length token) .. int (length stop_string) - 1] ([], [])"

text \<open>
  The loop over \<open>zip(token_list, reversed_filtered_token_list, tok_indices)\<close> for one
  stop string.  The two dictionaries keyed by token id are association lists in
  insertion order; an entry is written only for a non-empty list.
\<close>

type_synonym posdict = "(int \<times> int list) list"

definition token_step :: "ustr \<Rightarrow> ustr \<times> ustr \<times> int \<Rightarrow> posdict \<times> posdict \<Rightarrow> posdict \<times> posdict" where
  "token_step stop_string e acc =
     (case e of (token, rft, tok_idx) \<Rightarrow>
        (let r = token_positions token rft stop_string;
             vp = (if fst r \<noteq> [] then AList.update tok_idx (fst r) (fst acc) else fst acc);
             eo = (if snd r \<noteq> [] then AList.update tok_idx (snd r) (snd acc) else snd acc)
         in (vp, eo)))"

definition stop_string_positions :: "ustr list \<Rightarrow> ustr list \<Rightarrow> int list \<Rightarrow> ustr \<Rightarrow> posdict \<times> posdict" where
  "stop_string_positions token_list rfts tok_indices stop_string =
     fold (token_step stop_string) (zip token_list (zip rfts tok_indices)) ([], [])"

text \<open>
  The whole function.  The two results are dictionaries keyed by stop string; a stop
  string that occurs twice overwrites its own entry with the same value.
\<close>

type_synonym strdict = "(ustr \<times> posdict) list"

definition stop_string_get_matching_positions ::
    "ustr list \<Rightarrow> int list \<Rightarrow> ustr list \<Rightarrow> error + strdict \<times> strdict" where
  "stop_string_get_matching_positions token_list tok_indices stop_strings =
     (case map_err cleanup_token token_list of
        Inl e \<Rightarrow> Inl e
      | Inr cleaned \<Rightarrow>
          Inr (fold (\<lambda>s acc.
                 (let r = stop_string_positions token_list (map rev cleaned) tok_indices s
                  in (AList.update s (fst r) (fst acc), AList.update s (snd r) (snd acc))))
               stop_strings ([], [])))"

subsection \<open>\<open>_stop_string_create_embedding_vec\<close>\<close>

text \<open>
  numpy indexing of the first axis of an array with \<open>n\<close> rows: a negative index counts
  from the end, anything outside \<open>[-n, n)\<close> raises \<open>IndexError\<close>.
\<close>

definition np_row :: "nat \<Rightarrow> int \<Rightarrow> error + nat" where
  "np_row n idx =
     (if 0 \<le> idx \<and> idx < int n then Inr (nat idx)
      else if - int n \<le> idx \<and> idx < 0 then Inr (nat (idx + int n))
      else Inl IndexError)"

text \<open>
  \<open>gather_vec[token_idx, a : a + len(vals)] = vals\<close>.  The slice is clipped to the row;
  assigning a list of another length than the slice raises \<open>ValueError\<close>.
\<close>

definition set_slice :: "int list list \<Rightarrow> int \<Rightarrow> nat \<Rightarrow> int list \<Rightarrow> error + int list list" where
  "set_slice gv token_idx a vals =
     (case np_row (length gv) token_idx of
        Inl e \<Rightarrow> Inl e
      | Inr r \<Rightarrow>
          (let row = gv ! r
           in if a + length vals \<le> length row
              then Inr (gv[r := take a row @ vals @ drop (a + length vals) row])
              else Inl ValueError))"

text \<open>\<open>gather_vec[token_idx, -1] = v\<close>.\<close>

definition set_last :: "int list list \<Rightarrow> int \<Rightarrow> int \<Rightarrow> error + int list list" where
  "set_last gv token_idx v =
     (case np_row (length gv) token_idx of
        Inl e \<Rightarrow> Inl e
      | Inr r \<Rightarrow>
          (let row = gv ! r
           in if row = [] then Inl IndexError
              else Inr (gv[r := row[length row - 1 := v]])))"

text \<open>Dictionary lookup \<open>d[k]\<close> for a key that the caller has stored before.\<close>

definition dict_get :: "('k \<times> 'v list) list \<Rightarrow> 'k \<Rightarrow> 'v list" where
  "dict_get d k = (case map_of d k of None \<Rightarrow> [] | Some v \<Rightarrow> v)"

text \<open>The body of \<open>for i, stop_string in enumerate(stop_strings)\<close>.\<close>

definition fill_stop_string ::
    "ustr list \<Rightarrow> int list \<Rightarrow> nat \<Rightarrow> nat \<Rightarrow> nat \<Rightarrow> strdict \<Rightarrow> strdict \<Rightarrow>
     nat \<times> ustr \<Rightarrow> int list list \<Rightarrow> error + int list list" where
  "fill_stop_string token_list tok_indices num mvp mvel tvp teo e gv =
     (case e of (i, stop_string) \<Rightarrow>
        (case fold_err (\<lambda>(token_idx, valid_positions) g.
                 set_slice g token_idx (mvp * i) valid_positions)
               (dict_get tvp stop_string) gv of
           Inl err \<Rightarrow> Inl err
         | Inr gv1 \<Rightarrow>
             (case fold_err (\<lambda>(token_idx, possible_end_lens) g.
                      set_slice g token_idx (mvp * num + mvel * i) possible_end_lens)
                    (dict_get teo stop_string) gv1 of
                Inl err \<Rightarrow> Inl err
              | Inr gv2 \<Rightarrow>
                  fold_err (\<lambda>(token, token_idx) g. set_last g token_idx (int (length token)))
                    (zip token_list tok_indices) gv2)))"

definition stop_string_create_embedding_vec ::
    "ustr list \<Rightarrow> int list \<Rightarrow> ustr list \<Rightarrow> error + int list list \<times> nat \<times> nat" where
  "stop_string_create_embedding_vec token_list tok_indices stop_strings =
     (case stop_string_get_matching_positions token_list tok_indices stop_strings of
        Inl e \<Rightarrow> Inl e
      | Inr (tvp, teo) \<Rightarrow>
          (case py_max (concat (map (\<lambda>(s, positions). map (\<lambda>(k, val). length val) positions) tvp)) of
             Inl e \<Rightarrow> Inl e
           | Inr mvp \<Rightarrow>
               (case py_max (concat (map (\<lambda>(s, positions). map (\<lambda>(k, val). length val) positions) teo)) of
                  Inl e \<Rightarrow> Inl e
                | Inr mvel \<Rightarrow>
                    (let vec_size = length stop_strings * (mvp + mvel) + 1;
                         gather_vec = replicate (length token_list) (replicate vec_size (- 1))
                     in case fold_err (fill_stop_string token_list tok_indices
                                         (length stop_strings) mvp mvel tvp teo)
                               (enumerate 0 stop_strings) gather_vec of
                          Inl e \<Rightarrow> Inl e
                        | Inr gv \<Rightarrow> Inr (gv, mvp, mvel)))))"


section \<open>The stop-string criterion\<close>

text \<open>
  The vocabulary \<open>tokenizer.get_vocab()\<close> is a dictionary from token to id, kept as an
  association list in insertion order.  The argument \<open>stop_strings\<close> is a string or a list
  of strings.
\<close>

datatype stop_arg = Str ustr | StrList "ustr list"

record StopStringCriteria =
  vocab :: "(ustr \<times> int) list"
  token_list :: "ustr list"
  tok_indices :: "int list"
  stop_strings :: "ustr list"
  embedding_vec :: "int list list"
  max_valid_positions :: nat
  max_valid_end_lens :: nat
  maximum_token_len :: nat
  num_stop_strings :: nat
  target_lens :: "int list"

text \<open>\<open>if isinstance(stop_strings, str): stop_strings = [stop_strings]\<close>\<close>

definition stop_list :: "stop_arg \<Rightarrow> ustr list" where
  "stop_list arg = (case arg of Str s \<Rightarrow> [s] | StrList l \<Rightarrow> l)"

definition StopStringCriteria_init :: "(ustr \<times> int) list \<Rightarrow> stop_arg \<Rightarrow> error + StopStringCriteria" where
  "StopStringCriteria_init v arg =
     (let ss = stop_list arg;
          tl = map fst v;
          ti = map snd v
      in case stop_string_create_embedding_vec tl ti ss of
           Inl e \<Rightarrow> Inl e
         | Inr (ev, mvp, mvel) \<Rightarrow>
             (case py_max (map length ss) of
                Inl e \<Rightarrow> Inl e
              | Inr mtl \<Rightarrow>
                  Inr \<lparr> vocab = v, token_list = tl, tok_indices = ti, stop_strings = ss,
                        embedding_vec = ev, max_valid_positions = mvp,
                        max_valid_end_lens = mvel, maximum_token_len = mtl,
                        num_stop_strings = length ss,
                        target_lens = map (\<lambda>s. int (length s)) ss \<rparr>))"

subsection \<open>Tensor operations used by \<open>__call__\<close>\<close>

text \<open>
  A two-dimensional tensor of token ids: its number of columns and its rows, each row of
  that many entries.  The number of columns is kept beside the rows because it decides a
  reduction over an empty dimension even when the batch has no row.
\<close>

record tensor2 =
  ncols :: nat
  rows :: "int list list"

definition wf_tensor :: "tensor2 \<Rightarrow> bool" where
  "wf_tensor t = list_all (\<lambda>r. length r = ncols t) (rows t)"

text \<open>\<open>x[-k:]\<close>: the last \<open>k\<close> entries, all of them when there are fewer; \<open>-0\<close> is \<open>0\<close>.\<close>

definition last_columns :: "nat \<Rightarrow> 'a list \<Rightarrow> 'a list" where
  "last_columns k xs = (if k = 0 then xs else drop (length xs - k) xs)"

text \<open>\<open>F.embedding\<close>: the table row of an id; an id outside the table raises.\<close>

definition embedding :: "int list list \<Rightarrow> int \<Rightarrow> error + int list" where
  "embedding vec i =
     (if 0 \<le> i \<and> i < int (length vec) then Inr (vec ! nat i) else Inl IndexError)"

text \<open>
  \<open>unflatten(-1, (n, -1))\<close>: a vector of \<open>n * w\<close> entries read as \<open>n\<close> consecutive vectors
  of \<open>w\<close> entries.
\<close>

definition unflatten :: "nat \<Rightarrow> 'a list \<Rightarrow> 'a list list" where
  "unflatten n xs =
     map (\<lambda>i. take (length xs div n) (drop (i * (length xs div n)) xs)) [0..<n]"

fun cumsum_from :: "int \<Rightarrow> int list \<Rightarrow> int list" where
  "cumsum_from a [] = []"
| "cumsum_from a (x # xs) = (a + x) # cumsum_from (a + x) xs"

definition cumsum :: "int list \<Rightarrow> int list" where
  "cumsum xs = cumsum_from 0 xs"

subsection \<open>\<open>StopStringCriteria.__call__\<close>\<close>

text \<open>
  One row of the batch, one stop string and one slot \<open>e\<close> of the newest token's
  \<open>end_lengths\<close>: \<open>vps\<close> are the \<open>valid_positions\<close> of the older tokens for that stop
  string and \<open>lens\<close> their lengths, newest first.  The result is the vector
  \<open>cumsum * mask\<close> along the token axis.
\<close>

definition masked_cumsum :: "int \<Rightarrow> int list list \<Rightarrow> int list \<Rightarrow> int list" where
  "masked_cumsum e vps lens =
     (let cs = cumsum (e # lens);
          initial_match = (e > 0);
          later_match = map2 (\<lambda>c vp. c \<in> set vp) (butlast cs) vps;
          match = initial_match # later_match;
          mask = map (\<lambda>k. k = 0) (cumsum (map (\<lambda>b. if b then 0 else 1) match))
      in map2 (\<lambda>c m. c * (if m then 1 else 0)) cs mask)"

text \<open>
  \<open>input_ids[:, -maximum_token_len:]\<close>: the trailing columns of the batch.
\<close>

definition trailing_columns :: "nat \<Rightarrow> tensor2 \<Rightarrow> tensor2" where
  "trailing_columns k t =
     \<lparr> ncols = (if k = 0 then ncols t else min k (ncols t)),
       rows = map (last_columns k) (rows t) \<rparr>"

text \<open>
  The gathered table rows of one batch row, newest token first: the row is flipped and
  every id is looked up.
\<close>

definition row_embedded :: "StopStringCriteria \<Rightarrow> int list \<Rightarrow> error + int list list" where
  "row_embedded c ids = map_err (embedding (embedding_vec c)) (rev ids)"

text \<open>
  \<open>string_matches\<close> of one batch row with at least one token, for the stop string of
  index \<open>s\<close>: the maximum of \<open>cumsum * mask\<close> over the token axis and the slots of
  \<open>end_lengths\<close>, compared with the length of the stop string.
\<close>

definition string_matches :: "StopStringCriteria \<Rightarrow> int list list \<Rightarrow> nat \<Rightarrow> bool" where
  "string_matches c embedded s =
     (let n = num_stop_strings c;
          mvp = max_valid_positions c;
          valid_positions = map (\<lambda>row. unflatten n (take (mvp * n) row)) (drop 1 embedded);
          end_lengths = map (\<lambda>row. unflatten n (drop (mvp * n) (butlast row))) (take 1 embedded);
          lengths = map last (drop 1 embedded);
          vals = concat (map (\<lambda>el. concat (map (\<lambda>e.
                     masked_cumsum e (map (\<lambda>vp. vp ! s) valid_positions) lengths) (el ! s)))
                   end_lengths)
      in Max (set vals) \<ge> target_lens c ! s)"

definition row_stopped :: "StopStringCriteria \<Rightarrow> int list list \<Rightarrow> bool" where
  "row_stopped c embedded =
     list_ex (string_matches c embedded) [0..<num_stop_strings c]"

text \<open>
  The call.  \<open>scores\<close> is accepted and not read.  \<open>torch.amax\<close> over an empty dimension
  raises; the token axis is empty exactly when the input has no column (the other reduced
  axis has \<open>max_valid_end_lens\<close> entries, at least one for a constructed criterion).
\<close>

definition StopStringCriteria_call :: "StopStringCriteria \<Rightarrow> tensor2 \<Rightarrow> 'scores \<Rightarrow> error + bool list" where
  "StopStringCriteria_call c input_ids scores =
     (let ids = trailing_columns (maximum_token_len c) input_ids
      in case map_err (row_embedded c) (rows ids) of
           Inl e \<Rightarrow> Inl e
         | Inr embedded \<Rightarrow>
             if ncols ids = 0 \<or> max_valid_end_lens c = 0 then Inl IndexError
             else Inr (map (row_stopped c) embedded))"


section \<open>Sibling criteria and the criteria list\<close>

text \<open>
  \<open>MaxLengthCriteria.__call__\<close>: every row is done once the number of columns reaches
  \<open>max_length\<close> (the warning about \<open>max_position_embeddings\<close> does not change the result).
\<close>

definition MaxLengthCriteria_call :: "int \<Rightarrow> tensor2 \<Rightarrow> 'scores \<Rightarrow> error + bool list" where
  "MaxLengthCriteria_call max_length input_ids scores =
     Inr (replicate (length (rows input_ids)) (int (ncols input_ids) \<ge> max_length))"

text \<open>
  \<open>is_done | criteria(input_ids, scores)\<close> on one-dimensional tensors: elementwise, a
  tensor of one entry is broadcast, any other pair of different sizes raises.
\<close>

definition tensor_or :: "bool list \<Rightarrow> bool list \<Rightarrow> error + bool list" where
  "tensor_or a b =
     (if length a = length b then Inr (map2 (\<or>) a b)
      else if length b = 1 then Inr (map (\<lambda>x. x \<or> hd b) a)
      else if length a = 1 then Inr (map (\<lambda>y. hd a \<or> y) b)
      else Inl RuntimeError)"

text \<open>
  \<open>StoppingCriteriaList.__call__\<close>.  A member criterion is any callable of the common
  signature; it may raise.
\<close>

type_synonym 'scores criterion = "tensor2 \<Rightarrow> 'scores \<Rightarrow> error + bool list"

definition StoppingCriteriaList_call :: "'scores criterion list \<Rightarrow> tensor2 \<Rightarrow> 'scores \<Rightarrow> error + bool list" where
  "StoppingCriteriaList_call self input_ids scores =
     fold_err (\<lambda>criteria is_done.
                 case criteria input_ids scores of
                   Inl e \<Rightarrow> Inl e
                 | Inr r \<Rightarrow> tensor_or is_done r)
       self (replicate (length (rows input_ids)) False)"


section \<open>The stop condition in terms of text\<close>

text \<open>
  The text of a token after \<open>_cleanup_token\<close> (the empty token, on which the function
  raises, has no text), and the text of the vocabulary token with a given id.
\<close>

definition cleaned :: "ustr \<Rightarrow> ustr" where
  "cleaned token = (case cleanup_token token of Inl e \<Rightarrow> [] | Inr t \<Rightarrow> t)"

definition token_text :: "(ustr \<times> int) list \<Rightarrow> int \<Rightarrow> ustr" where
  "token_text v i = (case filter (\<lambda>e. snd e = i) v of [] \<Rightarrow> [] | e # es \<Rightarrow> cleaned (fst e))"

text \<open>
  The stop string \<open>s\<close> occurs in the concatenation of the texts, and the occurrence ends
  inside the last text: after its first character, or any later one up to its last.
\<close>

definition ends_in_last_token :: "ustr \<Rightarrow> ustr list \<Rightarrow> bool" where
  "ends_in_last_token s texts =
     (texts \<noteq> [] \<and>
      list_ex (\<lambda>p. suffix s (concat (butlast texts) @ take p (last texts)))
        [1..<Suc (length (last texts))])"

text \<open>The decision that the text of a row of token ids calls for.\<close>

definition row_should_stop :: "(ustr \<times> int) list \<Rightarrow> ustr list \<Rightarrow> int list \<Rightarrow> bool" where
  "row_should_stop v stops ids =
     list_ex (\<lambda>s. ends_in_last_token s (map (token_text v) ids)) stops"


section \<open>Auxiliary notions\<close>

text \<open>
  What the precomputation stores for one token and one stop string: the
  \<open>matching_positions\<close> and the \<open>possible_end_lengths\<close> of the innermost loop.
\<close>

definition valid_positions_of :: "ustr \<Rightarrow> ustr \<Rightarrow> int list" where
  "valid_positions_of token s = fst (token_positions token (rev (cleaned token)) s)"

definition end_overlaps_of :: "ustr \<Rightarrow> ustr \<Rightarrow> int list" where
  "end_overlaps_of token s = snd (token_positions token (rev (cleaned token)) s)"

text \<open>
  The vector \<open>cumsum * mask\<close> by recursion along the token axis: \<open>ok\<close> tells whether every
  token so far matched, \<open>c\<close> is the running sum.
\<close>

fun masked_from :: "bool \<Rightarrow> int \<Rightarrow> int list list \<Rightarrow> int list \<Rightarrow> int list" where
  "masked_from ok c (vp # vps) (l # lens) =
     (c * (if ok then 1 else 0)) # masked_from (ok \<and> c \<in> set vp) (c + l) vps lens"
| "masked_from ok c vps lens = [c * (if ok then 1 else 0)]"

text \<open>
  The running sum reaches \<open>L\<close> before a token fails to continue the match.
\<close>

fun reach :: "int \<Rightarrow> int \<Rightarrow> int list list \<Rightarrow> int list \<Rightarrow> bool" where
  "reach L c (vp # vps) (l # lens) = (L \<le> c \<or> (c \<in> set vp \<and> reach L (c + l) vps lens))"
| "reach L c vps lens = (L \<le> c)"

text \<open>The row written by \<open>row[a : a + len(vals)] = vals\<close>.\<close>

definition slice_update :: "nat \<Rightarrow> int list \<Rightarrow> int list \<Rightarrow> int list" where
  "slice_update a vals row = take a row @ vals @ drop (a + length vals) row"

text \<open>
  The table row of a token after the first \<open>i\<close> of \<open>S\<close> stop strings have been processed:
  \<open>S\<close> slots of \<open>mvp\<close> valid positions, \<open>S\<close> slots of \<open>mvel\<close> end overlaps, each padded
  with \<open>-1\<close>, and the length of the token.
\<close>

definition row_filled ::
    "nat \<Rightarrow> nat \<Rightarrow> nat \<Rightarrow> (nat \<Rightarrow> int list) \<Rightarrow> (nat \<Rightarrow> int list) \<Rightarrow> int \<Rightarrow> nat \<Rightarrow> int list \<Rightarrow> bool" where
  "row_filled S mvp mvel P E len i row \<longleftrightarrow>
     length row = S * (mvp + mvel) + 1 \<and>
     (\<forall>j<S. \<forall>k<mvp. row ! (mvp * j + k) = (if j < i \<and> k < length (P j) then P j ! k else - 1)) \<and>
     (\<forall>j<S. \<forall>k<mvel. row ! (mvp * S + mvel * j + k) = (if j < i \<and> k < length (E j) then E j ! k else - 1)) \<and>
     (0 < i \<longrightarrow> row ! (S * (mvp + mvel)) = len)"


section \<open>Example configurations\<close>

text \<open>The vocabulary and stop string of the literal scenario, and the same tokens numbered from 0.\<close>

definition literal_vocab :: "(ustr \<times> int) list" where
  "literal_vocab =
     zip (map ascii [''st'', ''op'', ''stop'', ''opera'', ''sto'', ''pper'', ''las'',
                      ''topper'', ''at'', ''tion''])
         [1, 2, 3, 4, 5, 6, 7, 8, 9, 10]"

definition dense_vocab :: "(ustr \<times> int) list" where
  "dense_vocab =
     zip (map ascii [''st'', ''op'', ''stop'', ''opera'', ''sto'', ''pper'', ''las'',
                      ''topper'', ''at'', ''tion''])
         [0, 1, 2, 3, 4, 5, 6, 7, 8, 9]"

definition banana_vocab :: "(ustr \<times> int) list" where
  "banana_vocab = zip (map ascii [''ba'', ''bana'', ''nana'']) [0, 1, 2]"

text \<open>The same three tokens numbered from 1.\<close>

definition banana_sparse_vocab :: "(ustr \<times> int) list" where
  "banana_sparse_vocab = zip (map ascii [''ba'', ''bana'', ''nana'']) [1, 2, 3]"

definition small_vocab :: "(ustr \<times> int) list" where
  "small_vocab = zip (map ascii [''st'', ''op'']) [0, 1]"

text \<open>The criterion that construction yields for \<open>small_vocab\<close> and the stop string \<open>stop\<close>.\<close>

definition small_crit :: StopStringCriteria where
  "small_crit =
     \<lparr> vocab = small_vocab, token_list = map fst small_vocab, tok_indices = map snd small_vocab,
       stop_strings = [ascii ''stop''],
       embedding_vec = [[2, - 1, 2], [- 1, 2, 2]],
       max_valid_positions = 1, max_valid_end_lens = 1, maximum_token_len = 4,
       num_stop_strings = 1, target_lens = [4] \<rparr>"

text \<open>The criteria that construction yields for \<open>dense_vocab\<close> and for \<open>banana_vocab\<close>.\<close>

definition dense_crit :: StopStringCriteria where
  "dense_crit =
     \<lparr> vocab = dense_vocab, token_list = map fst dense_vocab, tok_indices = map snd dense_vocab,
       stop_strings = [ascii ''stop''],
       embedding_vec = [[2, - 1, 2], [- 1, 2, 2], [- 1, 4, 4], [- 1, 2, 5], [1, - 1, 3],
                        [- 1, 1, 4], [3, - 1, 3], [- 1, 3, 6], [- 1, - 1, 2], [- 1, - 1, 4]],
       max_valid_positions = 1, max_valid_end_lens = 1, maximum_token_len = 4,
       num_stop_strings = 1, target_lens = [4] \<rparr>"

definition banana_crit :: StopStringCriteria where
  "banana_crit =
     \<lparr> vocab = banana_vocab, token_list = map fst banana_vocab,
       tok_indices = map snd banana_vocab, stop_strings = [ascii ''banana''],
       embedding_vec = [[4, - 1, - 1, 2], [2, - 1, - 1, 4], [- 1, 2, 4, 4]],
       max_valid_positions = 1, max_valid_end_lens = 2, maximum_token_len = 6,
       num_stop_strings = 1, target_lens = [6] \<rparr>"

text \<open>A batch of one row.\<close>

definition one_row :: "int list \<Rightarrow> tensor2" where
  "one_row ids = \<lparr> ncols = length ids, rows = [ids] \<rparr>"

text \<open>Construction followed by one call.\<close>

definition evaluate :: "(ustr \<times> int) list \<Rightarrow> stop_arg \<Rightarrow> tensor2 \<Rightarrow> error + bool list" where
  "evaluate v arg input_ids =
     (case StopStringCriteria_init v arg of
        Inl e \<Rightarrow> Inl e
      | Inr c \<Rightarrow> StopStringCriteria_call c input_ids ())"


section \<open>Alignments in terms of the text of a token\<close>

lemma position_step_eq:
  "position_step rft rs i acc =
     (fst acc @ (if 0 < i \<and> prefix (take (length rft) (drop (nat i) rs)) rft then [i] else []),
      snd acc @ (if i \<le> 0 \<and> prefix (take (length rft - nat (- i)) rs) (drop (nat (- i)) rft)
                 then [int (min (length rft - nat (- i)) (length rs))] else []))"
  by (cases "i < 0"; cases "i = 0") (simp_all add: position_step_def Let_def min_def)

lemma fold_position_step:
  "fold (position_step rft rs) js acc =
     (fst acc @ filter (\<lambda>i. 0 < i \<and> prefix (take (length rft) (drop (nat i) rs)) rft) js,
      snd acc @ map (\<lambda>i. int (min (length rft - nat (- i)) (length rs)))
                  (filter (\<lambda>i. i \<le> 0 \<and> prefix (take (length rft - nat (- i)) rs) (drop (nat (- i)) rft)) js))"
proof (induction js arbitrary: acc)
  case Nil
  show ?case by simp
next
  case (Cons i js)
  have "fold (position_step rft rs) (i # js) acc =
          fold (position_step rft rs) js (position_step rft rs i acc)"
    by simp
  also have "\<dots> =
     (fst (position_step rft rs i acc) @
        filter (\<lambda>i. 0 < i \<and> prefix (take (length rft) (drop (nat i) rs)) rft) js,
      snd (position_step rft rs i acc) @
        map (\<lambda>i. int (min (length rft - nat (- i)) (length rs)))
          (filter (\<lambda>i. i \<le> 0 \<and> prefix (take (length rft - nat (- i)) rs) (drop (nat (- i)) rft)) js))"
    by (rule Cons.IH)
  also have "\<dots> =
     (fst acc @ filter (\<lambda>i. 0 < i \<and> prefix (take (length rft) (drop (nat i) rs)) rft) (i # js),
      snd acc @ map (\<lambda>i. int (min (length rft - nat (- i)) (length rs)))
                  (filter (\<lambda>i. i \<le> 0 \<and> prefix (take (length rft - nat (- i)) rs) (drop (nat (- i)) rft)) (i # js)))"
    by (simp add: position_step_eq)
  finally show ?case .
qed

lemma token_positions_fst:
  "set (fst (token_positions token rft s)) =
     {i. 0 < i \<and> i < int (length s) \<and> prefix (take (length rft) (drop (nat i) (rev s))) rft}"
  by (auto simp: token_positions_def fold_position_step)

lemma token_positions_snd:
  "set (snd (token_positions token rft s)) =
     (\<lambda>i. int (min (length rft - nat (- i)) (length s))) `
       {i. 1 - int (length token) \<le> i \<and> i \<le> 0 \<and> i < int (length s) \<and>
           prefix (take (length rft - nat (- i)) (rev s)) (drop (nat (- i)) rft)}"
  by (auto simp: token_positions_def fold_position_step)

lemma prefix_rev_iff: "prefix (rev a) (rev b) \<longleftrightarrow> suffix a b"
  by (simp add: suffix_to_prefix)

lemma valid_position_iff:
  "int c \<in> set (fst (token_positions token (rev t) s)) \<longleftrightarrow>
     0 < c \<and> c < length s \<and>
     suffix (drop (length s - c - length t) (take (length s - c) s)) t"
proof -
  have "take (length t) (drop c (rev s)) = rev (drop (length s - c - length t) (take (length s - c) s))"
    by (simp add: drop_rev take_rev)
  then show ?thesis
    by (simp add: token_positions_fst prefix_rev_iff)
qed

lemma end_overlap_iff:
  assumes "length token = length t"
  shows "e \<in> set (snd (token_positions token (rev t) s)) \<longleftrightarrow>
     (\<exists>p. 1 \<le> p \<and> p \<le> length t \<and> (s = [] \<longrightarrow> p < length t) \<and>
          e = int (min p (length s)) \<and> suffix (drop (length s - p) s) (take p t))"
    (is "?L \<longleftrightarrow> ?R")
proof
  assume ?L
  then obtain i where i: "1 - int (length t) \<le> i" "i \<le> 0" "i < int (length s)"
      "prefix (take (length t - nat (- i)) (rev s)) (drop (nat (- i)) (rev t))"
      "e = int (min (length t - nat (- i)) (length s))"
    using assms by (auto simp: token_positions_snd)
  define k where "k = nat (- i)"
  define p where "p = length t - k"
  have k: "k < length t" "s = [] \<longrightarrow> 0 < k"
    using i(1-3) by (auto simp: k_def)
  have "prefix (take p (rev s)) (drop k (rev t))"
    using i(4) by (simp add: k_def p_def)
  moreover have "take p (rev s) = rev (drop (length s - p) s)" by (simp add: take_rev)
  moreover have "drop k (rev t) = rev (take p t)"
    using k(1) by (simp add: drop_rev p_def)
  ultimately have "suffix (drop (length s - p) s) (take p t)"
    by (simp add: prefix_rev_iff)
  moreover have "e = int (min p (length s))" using i(5) by (simp add: k_def p_def)
  moreover have "1 \<le> p" "p \<le> length t" "s = [] \<longrightarrow> p < length t"
    using k by (auto simp: p_def)
  ultimately show ?R by blast
next
  assume ?R
  then obtain p where p: "1 \<le> p" "p \<le> length t" "s = [] \<longrightarrow> p < length t"
      "e = int (min p (length s))" "suffix (drop (length s - p) s) (take p t)"
    by blast
  define i where "i = int p - int (length t)"
  have n: "nat (- i) = length t - p" using p(2) by (simp add: i_def)
  have tp: "length t - (length t - p) = p" using p(2) by simp
  have "take p (rev s) = rev (drop (length s - p) s)" by (simp add: take_rev)
  moreover have "drop (length t - p) (rev t) = rev (take p t)"
    using p(2) by (simp add: drop_rev)
  ultimately have pre: "prefix (take (length t - nat (- i)) (rev s)) (drop (nat (- i)) (rev t))"
    using p(5) unfolding n tp by (simp add: prefix_rev_iff)
  have "i < 0 \<or> 0 < int (length s)" using p(2,3) by (cases s) (auto simp: i_def)
  moreover have "1 - int (length t) \<le> i" "i \<le> 0"
    using p(1-2) by (auto simp: i_def)
  ultimately have rng: "1 - int (length t) \<le> i" "i \<le> 0" "i < int (length s)"
    by linarith+
  have "e = int (min (length t - nat (- i)) (length s))" unfolding n tp by (rule p(4))
  with pre rng show ?L
    using assms unfolding token_positions_snd by (intro image_eqI[where x = i]) auto
qed


section \<open>The masked running sum\<close>

lemma masked_cumsum_gen:
  "0 \<le> a \<Longrightarrow>
   map2 (\<lambda>c m. c * (if m then 1 else 0)) (c # cumsum_from c lens)
     (map (\<lambda>k. k = 0)
        (cumsum_from a (map (\<lambda>b. if b then 0 else 1)
           (b0 # map2 (\<lambda>c vp. c \<in> set vp) (butlast (c # cumsum_from c lens)) vps))))
   = masked_from (a = 0 \<and> b0) c vps lens"
proof (induction lens arbitrary: vps a b0 c)
  case Nil
  then show ?case by (cases vps) auto
next
  case (Cons l lens)
  show ?case
  proof (cases vps)
    case Nil
    with Cons.prems show ?thesis by auto
  next
    case (Cons vp vps')
    define a' where "a' = a + (if b0 then 0 else 1)"
    have a': "0 \<le> a'" "a' = 0 \<longleftrightarrow> a = 0 \<and> b0"
      using Cons.prems by (auto simp: a'_def)
    have "map2 (\<lambda>c m. c * (if m then 1 else 0)) ((c + l) # cumsum_from (c + l) lens)
     (map (\<lambda>k. k = 0)
        (cumsum_from a' (map (\<lambda>b. if b then 0 else 1)
           ((c \<in> set vp) # map2 (\<lambda>c vp. c \<in> set vp) (butlast ((c + l) # cumsum_from (c + l) lens)) vps'))))
     = masked_from (a' = 0 \<and> c \<in> set vp) (c + l) vps' lens"
      by (rule Cons.IH [OF a'(1)])
    then show ?thesis
      using a'(2) unfolding Cons a'_def by simp
  qed
qed

lemma masked_cumsum_eq: "masked_cumsum e vps lens = masked_from (0 < e) e vps lens"
  using masked_cumsum_gen [of 0 e lens "0 < e" vps]
  by (simp add: masked_cumsum_def cumsum_def Let_def)

lemma masked_from_ge:
  "0 < L \<Longrightarrow> (\<exists>x \<in> set (masked_from ok c vps lens). L \<le> x) \<longleftrightarrow> ok \<and> reach L c vps lens"
  by (induction ok c vps lens rule: masked_from.induct) auto

lemma masked_from_nonneg: "0 \<le> c \<or> \<not> ok \<Longrightarrow> 0 \<le> hd (masked_from ok c vps lens)"
  by (cases "(ok, c, vps, lens)" rule: masked_from.cases) auto

lemma masked_from_not_Nil: "masked_from ok c vps lens \<noteq> []"
  by (cases "(ok, c, vps, lens)" rule: masked_from.cases) auto

lemma suffix_same_length: "length a = length b \<Longrightarrow> suffix a b \<longleftrightarrow> a = b"
  by (metis suffix_order.eq_iff suffix_length_suffix order_refl)

lemma suffix_append_short:
  assumes "length u \<le> length t"
  shows "suffix u (X @ t) \<longleftrightarrow> suffix u t"
proof
  assume "suffix u (X @ t)"
  then consider "suffix u t" | xs where "u = xs @ t" "suffix xs X"
    by (auto simp: suffix_append)
  then show "suffix u t"
  proof cases
    case 1 then show ?thesis .
  next
    case 2
    with assms have "xs = []" by simp
    with 2 show ?thesis by simp
  qed
next
  assume "suffix u t"
  then show "suffix u (X @ t)" by (simp add: suffix_appendI)
qed

lemma suffix_append_same_length:
  assumes "length u2 = length t"
  shows "suffix (u1 @ u2) (X @ t) \<longleftrightarrow> u2 = t \<and> suffix u1 X"
proof
  assume "suffix (u1 @ u2) (X @ t)"
  then obtain zs where "X @ t = (zs @ u1) @ u2" by (auto simp: suffix_def)
  with assms have "X = zs @ u1 \<and> t = u2"
    using append_eq_append_conv [of X "zs @ u1" t u2] by simp
  then have "X = zs @ u1" "t = u2" by simp_all
  then show "u2 = t \<and> suffix u1 X" by (simp add: suffix_def)
next
  assume "u2 = t \<and> suffix u1 X"
  then show "suffix (u1 @ u2) (X @ t)" by (auto simp: suffix_def)
qed

lemma suffix_append_split:
  "suffix u (X @ t) \<longleftrightarrow>
     suffix (drop (length u - length t) u) t \<and> suffix (take (length u - length t) u) X"
proof (cases "length u \<le> length t")
  case True
  then show ?thesis by (simp add: suffix_append_short)
next
  case False
  define u1 where "u1 = take (length u - length t) u"
  define u2 where "u2 = drop (length u - length t) u"
  have u: "u = u1 @ u2" and len: "length u2 = length t"
    using False by (auto simp: u1_def u2_def)
  have "suffix (u1 @ u2) (X @ t) \<longleftrightarrow> u2 = t \<and> suffix u1 X"
    by (rule suffix_append_same_length [OF len])
  moreover have "suffix u2 t \<longleftrightarrow> u2 = t"
    by (rule suffix_same_length [OF len])
  ultimately show ?thesis
    unfolding u1_def [symmetric] u2_def [symmetric] using u by simp
qed

lemma reach_text:
  assumes "\<And>x c. x \<in> set xs \<Longrightarrow> 0 < c \<Longrightarrow>
             int c \<in> set (vpf x) \<longleftrightarrow>
               c < length s \<and>
               suffix (drop (length s - c - length (txt x)) (take (length s - c) s)) (txt x)"
    and "0 < c"
  shows "reach (int (length s)) (int c) (map vpf xs) (map (\<lambda>x. int (length (txt x))) xs) \<longleftrightarrow>
           length s \<le> c \<or> suffix (take (length s - c) s) (concat (rev (map txt xs)))"
  using assms
proof (induction xs arbitrary: c)
  case Nil
  then show ?case by (cases "length s \<le> c") auto
next
  case (Cons x xs)
  define t where "t = txt x"
  define X where "X = concat (rev (map txt xs))"
  have IH: "reach (int (length s)) (int (c + length t)) (map vpf xs) (map (\<lambda>x. int (length (txt x))) xs) \<longleftrightarrow>
           length s \<le> c + length t \<or> suffix (take (length s - (c + length t)) s) X"
    unfolding X_def by (rule Cons.IH) (use Cons.prems in auto)
  have vp: "int c \<in> set (vpf x) \<longleftrightarrow>
               c < length s \<and>
               suffix (drop (length s - c - length t) (take (length s - c) s)) t"
    unfolding t_def by (rule Cons.prems(1)) (use Cons.prems(2) in auto)
  show ?case
  proof (cases "length s \<le> c")
    case True
    then show ?thesis by simp
  next
    case False
    define u where "u = take (length s - c) s"
    have lu: "length u = length s - c" by (simp add: u_def)
    have split: "suffix u (X @ t) \<longleftrightarrow>
        suffix (drop (length s - c - length t) u) t \<and>
        suffix (take (length s - c - length t) u) X"
      using suffix_append_split [of u X t] by (simp add: lu)
    have tk: "take (length s - c - length t) u = take (length s - (c + length t)) s"
      by (simp add: u_def min_def)
    have short: "length s \<le> c + length t \<Longrightarrow> take (length s - (c + length t)) s = []"
      by simp
    have "reach (int (length s)) (int c) (map vpf (x # xs)) (map (\<lambda>x. int (length (txt x))) (x # xs))
          \<longleftrightarrow> int c \<in> set (vpf x) \<and>
              reach (int (length s)) (int (c + length t)) (map vpf xs) (map (\<lambda>x. int (length (txt x))) xs)"
      using False by (simp add: t_def)
    also have "\<dots> \<longleftrightarrow> suffix (drop (length s - c - length t) u) t \<and>
        (length s \<le> c + length t \<or> suffix (take (length s - (c + length t)) s) X)"
      using False unfolding IH vp u_def by simp
    also have "\<dots> \<longleftrightarrow> suffix u (X @ t)"
      unfolding split tk using short by auto
    finally show ?thesis using False by (simp add: u_def X_def t_def)
  qed
qed


section \<open>The dictionaries of the precomputation\<close>

lemma fold_max_ge_start: "(a::nat) \<le> fold max xs a"
proof (induction xs arbitrary: a)
  case Nil
  show ?case by simp
next
  case (Cons x xs)
  have "a \<le> max x a" by simp
  also have "\<dots> \<le> fold max xs (max x a)" by (rule Cons.IH)
  finally show ?case by simp
qed

lemma fold_max_ge: "x \<in> set xs \<Longrightarrow> (x::nat) \<le> fold max xs a"
proof (induction xs arbitrary: a)
  case Nil
  then show ?case by simp
next
  case (Cons y xs)
  show ?case
  proof (cases "x = y")
    case True
    have "x \<le> max y a" using True by simp
    also have "\<dots> \<le> fold max xs (max y a)" by (rule fold_max_ge_start)
    finally show ?thesis by simp
  next
    case False
    with Cons.prems have "x \<in> set xs" by simp
    then have "x \<le> fold max xs (max y a)" by (rule Cons.IH)
    then show ?thesis by simp
  qed
qed

lemma py_max_ge: "py_max xs = Inr m \<Longrightarrow> x \<in> set xs \<Longrightarrow> x \<le> m"
  by (auto simp: py_max_def fold_max_ge split: if_splits)

lemma py_max_Inr_iff: "(\<exists>m. py_max xs = Inr m) \<longleftrightarrow> xs \<noteq> []"
  by (simp add: py_max_def)

lemma set_update_cases: "x \<in> set (AList.update k v al) \<Longrightarrow> x = (k, v) \<or> x \<in> set al"
  by (induction al) (auto split: if_splits)

text \<open>A dictionary keyed by token id, filled in one pass.\<close>

lemma dict_fill_other:
  "(\<And>e. e \<in> set zs \<Longrightarrow> key e = k \<Longrightarrow> f e = []) \<Longrightarrow>
   map_of (fold (\<lambda>e d. if f e \<noteq> [] then AList.update (key e) (f e) d else d) zs d) k = map_of d k"
proof (induction zs arbitrary: d)
  case Nil
  show ?case by simp
next
  case (Cons z zs)
  have "map_of (fold (\<lambda>e d. if f e \<noteq> [] then AList.update (key e) (f e) d else d) zs
           (if f z \<noteq> [] then AList.update (key z) (f z) d else d)) k =
        map_of (if f z \<noteq> [] then AList.update (key z) (f z) d else d) k"
    by (rule Cons.IH) (use Cons.prems in auto)
  also have "\<dots> = map_of d k"
    using Cons.prems [of z] by (auto simp: update_conv')
  finally show ?case by simp
qed

lemma dict_fill_entry:
  "distinct (map key zs) \<Longrightarrow> e \<in> set zs \<Longrightarrow> f e \<noteq> [] \<Longrightarrow>
   map_of (fold (\<lambda>e d. if f e \<noteq> [] then AList.update (key e) (f e) d else d) zs d) (key e) = Some (f e)"
proof (induction zs arbitrary: d)
  case Nil
  then show ?case by simp
next
  case (Cons z zs)
  show ?case
  proof (cases "e = z")
    case True
    have "map_of (fold (\<lambda>e d. if f e \<noteq> [] then AList.update (key e) (f e) d else d) zs
             (AList.update (key z) (f z) d)) (key z) =
          map_of (AList.update (key z) (f z) d) (key z)"
    proof (rule dict_fill_other)
      fix e' assume "e' \<in> set zs" "key e' = key z"
      then have "key z \<in> key ` set zs" by (metis imageI)
      with Cons.prems(1) show "f e' = []" by simp
    qed
    then show ?thesis using True Cons.prems(3) by (simp add: update_conv')
  next
    case False
    with Cons.prems have "e \<in> set zs" "distinct (map key zs)" by auto
    then show ?thesis using Cons.IH Cons.prems(3) by simp
  qed
qed

lemma dict_fill_lookup:
  assumes "distinct (map key zs)" "e \<in> set zs"
  shows "dict_get (fold (\<lambda>e d. if f e \<noteq> [] then AList.update (key e) (f e) d else d) zs []) (key e) = f e"
proof (cases "f e = []")
  case True
  have "\<And>e'. e' \<in> set zs \<Longrightarrow> key e' = key e \<Longrightarrow> f e' = []"
    using assms True by (metis distinct_map inj_onD)
  then have "map_of (fold (\<lambda>e d. if f e \<noteq> [] then AList.update (key e) (f e) d else d) zs []) (key e) = map_of [] (key e)"
    by (rule dict_fill_other)
  then show ?thesis using True by (simp add: dict_get_def)
next
  case False
  then show ?thesis
    using dict_fill_entry [where key = key and f = f and zs = zs and e = e and d = "[]"] assms
    by (simp add: dict_get_def)
qed

lemma dict_fill_props:
  assumes "distinct (map fst d)" "\<And>k x. (k, x) \<in> set d \<Longrightarrow> Q k x"
    and "\<And>e. e \<in> set zs \<Longrightarrow> f e \<noteq> [] \<Longrightarrow> Q (key e) (f e)"
  shows "distinct (map fst (fold (\<lambda>e d. if f e \<noteq> [] then AList.update (key e) (f e) d else d) zs d)) \<and>
         (\<forall>(k, x) \<in> set (fold (\<lambda>e d. if f e \<noteq> [] then AList.update (key e) (f e) d else d) zs d). Q k x)"
  using assms
proof (induction zs arbitrary: d)
  case Nil
  then show ?case by auto
next
  case (Cons z zs)
  define d' where "d' = (if f z \<noteq> [] then AList.update (key z) (f z) d else d)"
  have 1: "distinct (map fst d')"
    using Cons.prems(1) by (simp add: d'_def distinct_update)
  have 2: "\<And>k x. (k, x) \<in> set d' \<Longrightarrow> Q k x"
  proof -
    fix k x assume "(k, x) \<in> set d'"
    then have "(k, x) \<in> set d \<or> (f z \<noteq> [] \<and> (k, x) = (key z, f z))"
      using set_update_cases [of "(k, x)" "key z" "f z" d] by (auto simp: d'_def split: if_splits)
    then show "Q k x" using Cons.prems(2) Cons.prems(3) [of z] by auto
  qed
  have 3: "\<And>e. e \<in> set zs \<Longrightarrow> f e \<noteq> [] \<Longrightarrow> Q (key e) (f e)"
    using Cons.prems(3) by simp
  show ?case using Cons.IH [OF 1 2 3] by (simp add: d'_def)
qed

lemma fst_fold_token_step:
  "fst (fold (token_step s) zs acc) =
     fold (\<lambda>e d. if fst (token_positions (fst e) (fst (snd e)) s) \<noteq> []
                  then AList.update (snd (snd e)) (fst (token_positions (fst e) (fst (snd e)) s)) d
                  else d) zs (fst acc)"
  by (induction zs arbitrary: acc) (simp_all add: token_step_def Let_def split: prod.splits)

lemma snd_fold_token_step:
  "snd (fold (token_step s) zs acc) =
     fold (\<lambda>e d. if snd (token_positions (fst e) (fst (snd e)) s) \<noteq> []
                  then AList.update (snd (snd e)) (snd (token_positions (fst e) (fst (snd e)) s)) d
                  else d) zs (snd acc)"
  by (induction zs arbitrary: acc) (simp_all add: token_step_def Let_def split: prod.splits)

text \<open>The dictionaries keyed by stop string.\<close>

lemma strdict_lookup:
  "map_of (fst (fold (\<lambda>s acc. (let r = h s in (AList.update s (fst r) (fst acc), AList.update s (snd r) (snd acc)))) ss acc)) s =
     (if s \<in> set ss then Some (fst (h s)) else map_of (fst acc) s) \<and>
   map_of (snd (fold (\<lambda>s acc. (let r = h s in (AList.update s (fst r) (fst acc), AList.update s (snd r) (snd acc)))) ss acc)) s =
     (if s \<in> set ss then Some (snd (h s)) else map_of (snd acc) s)"
proof (induction ss arbitrary: acc rule: rev_induct)
  case Nil
  show ?case by simp
next
  case (snoc x xs)
  show ?case using snoc.IH [of acc] by (simp add: Let_def update_conv')
qed

lemma strdict_entries:
  assumes "\<forall>(k, d) \<in> set (fst acc). Q1 d" "\<forall>(k, d) \<in> set (snd acc). Q2 d"
    and "\<forall>s \<in> set ss. Q1 (fst (h s)) \<and> Q2 (snd (h s))"
  shows "(\<forall>(k, d) \<in> set (fst (fold (\<lambda>s acc. (let r = h s in (AList.update s (fst r) (fst acc), AList.update s (snd r) (snd acc)))) ss acc)). Q1 d) \<and>
         (\<forall>(k, d) \<in> set (snd (fold (\<lambda>s acc. (let r = h s in (AList.update s (fst r) (fst acc), AList.update s (snd r) (snd acc)))) ss acc)). Q2 d)"
  using assms
proof (induction ss arbitrary: acc)
  case Nil
  then show ?case by auto
next
  case (Cons s ss)
  define acc' where "acc' = (AList.update s (fst (h s)) (fst acc), AList.update s (snd (h s)) (snd acc))"
  have 1: "\<forall>(k, d) \<in> set (fst acc'). Q1 d"
  proof (clarify)
    fix k d assume "(k, d) \<in> set (fst acc')"
    then have "(k, d) = (s, fst (h s)) \<or> (k, d) \<in> set (fst acc)"
      unfolding acc'_def fst_conv by (rule set_update_cases)
    then show "Q1 d" using Cons.prems(1) Cons.prems(3) by auto
  qed
  have 2: "\<forall>(k, d) \<in> set (snd acc'). Q2 d"
  proof (clarify)
    fix k d assume "(k, d) \<in> set (snd acc')"
    then have "(k, d) = (s, snd (h s)) \<or> (k, d) \<in> set (snd acc)"
      unfolding acc'_def snd_conv by (rule set_update_cases)
    then show "Q2 d" using Cons.prems(2) Cons.prems(3) by auto
  qed
  have 3: "\<forall>s \<in> set ss. Q1 (fst (h s)) \<and> Q2 (snd (h s))"
    using Cons.prems(3) by simp
  have "(\<forall>(k, d) \<in> set (fst (fold (\<lambda>s acc. (let r = h s in (AList.update s (fst r) (fst acc), AList.update s (snd r) (snd acc)))) ss acc')). Q1 d) \<and>
         (\<forall>(k, d) \<in> set (snd (fold (\<lambda>s acc. (let r = h s in (AList.update s (fst r) (fst acc), AList.update s (snd r) (snd acc)))) ss acc')). Q2 d)"
    using 1 2 3 by (rule Cons.IH)
  then show ?case by (simp add: acc'_def Let_def)
qed


section \<open>Writing the rows of the table\<close>

lemma np_row_nonneg: "0 \<le> k \<Longrightarrow> k < int n \<Longrightarrow> np_row n k = Inr (nat k)"
  by (simp add: np_row_def)

lemma set_slice_row:
  "0 \<le> k \<Longrightarrow> k < int (length g) \<Longrightarrow> a + length x \<le> length (g ! nat k) \<Longrightarrow>
   set_slice g k a x = Inr (g[nat k := slice_update a x (g ! nat k)])"
  by (simp add: set_slice_def np_row_nonneg slice_update_def Let_def)

lemma set_last_row:
  "0 \<le> k \<Longrightarrow> k < int (length g) \<Longrightarrow> g ! nat k \<noteq> [] \<Longrightarrow>
   set_last g k x = Inr (g[nat k := (g ! nat k)[length (g ! nat k) - 1 := x]])"
  by (simp add: set_last_def np_row_nonneg Let_def)

lemma fold_err_map: "fold_err w (map h xs) g = fold_err (\<lambda>x. w (h x)) xs g"
  by (induction xs arbitrary: g) (auto split: sum.splits)

lemma fold_err_rows:
  assumes W: "\<And>g k x. 0 \<le> k \<Longrightarrow> k < int (length g) \<Longrightarrow> ok x (g ! nat k) \<Longrightarrow>
                w (k, x) g = Inr (g[nat k := f x (g ! nat k)])"
    and "distinct (map fst kvs)"
    and "\<forall>(k, x) \<in> set kvs. 0 \<le> k \<and> k < int (length gv) \<and> ok x (gv ! nat k)"
  shows "\<exists>g'. fold_err w kvs gv = Inr g' \<and> length g' = length gv \<and>
           (\<forall>r < length gv. g' ! r = (case map_of kvs (int r) of None \<Rightarrow> gv ! r | Some x \<Rightarrow> f x (gv ! r)))"
  using assms(2,3)
proof (induction kvs arbitrary: gv)
  case Nil
  then show ?case by simp
next
  case (Cons kx kvs)
  obtain k x where kx: "kx = (k, x)" by (cases kx)
  define g1 where "g1 = gv[nat k := f x (gv ! nat k)]"
  have k: "0 \<le> k" "k < int (length gv)" "ok x (gv ! nat k)"
    using Cons.prems(2) kx by auto
  have step: "w (k, x) gv = Inr g1"
    unfolding g1_def by (rule W [OF k])
  have notin: "k \<notin> fst ` set kvs"
    using Cons.prems(1) kx by auto
  have d: "distinct (map fst kvs)"
    using Cons.prems(1) by simp
  have pre: "\<forall>(k', x') \<in> set kvs. 0 \<le> k' \<and> k' < int (length g1) \<and> ok x' (g1 ! nat k')"
  proof clarify
    fix k' x' assume m: "(k', x') \<in> set kvs"
    then have "k' \<noteq> k" using notin by force
    moreover have b: "0 \<le> k'" "k' < int (length gv)" "ok x' (gv ! nat k')"
      using Cons.prems(2) m by auto
    ultimately have "nat k' \<noteq> nat k" using k(1) by auto
    then have "g1 ! nat k' = gv ! nat k'" by (simp add: g1_def)
    with b show "0 \<le> k' \<and> k' < int (length g1) \<and> ok x' (g1 ! nat k')"
      by (simp add: g1_def)
  qed
  from Cons.IH [OF d pre] obtain g' where g': "fold_err w kvs g1 = Inr g'" "length g' = length g1"
    "\<forall>r<length g1. g' ! r = (case map_of kvs (int r) of None \<Rightarrow> g1 ! r | Some x \<Rightarrow> f x (g1 ! r))"
    by blast
  have "fold_err w (kx # kvs) gv = Inr g'"
    using step g'(1) kx by simp
  moreover have "length g' = length gv"
    using g'(2) by (simp add: g1_def)
  moreover have "\<forall>r < length gv. g' ! r =
      (case map_of (kx # kvs) (int r) of None \<Rightarrow> gv ! r | Some x \<Rightarrow> f x (gv ! r))"
  proof (intro allI impI)
    fix r assume r: "r < length gv"
    then have e: "g' ! r = (case map_of kvs (int r) of None \<Rightarrow> g1 ! r | Some x \<Rightarrow> f x (g1 ! r))"
      using g'(3) by (simp add: g1_def)
    show "g' ! r = (case map_of (kx # kvs) (int r) of None \<Rightarrow> gv ! r | Some x \<Rightarrow> f x (gv ! r))"
    proof (cases "int r = k")
      case True
      then have "map_of kvs (int r) = None"
        using notin by (simp add: map_of_eq_None_iff)
      moreover have "nat k = r" using True by auto
      ultimately show ?thesis using e r True kx by (simp add: g1_def)
    next
      case False
      then have "nat k \<noteq> r" using k(1) by auto
      then have "g1 ! r = gv ! r" by (simp add: g1_def)
      then show ?thesis using e False kx by (simp split: option.splits)
    qed
  qed
  ultimately show ?case by blast
qed

lemma fold_err_enumerate_inv:
  assumes "I m g0"
    and "\<And>i g. i < length xs \<Longrightarrow> I (m + i) g \<Longrightarrow> \<exists>g'. f (m + i, xs ! i) g = Inr g' \<and> I (Suc (m + i)) g'"
  shows "\<exists>g'. fold_err f (enumerate m xs) g0 = Inr g' \<and> I (m + length xs) g'"
  using assms
proof (induction xs arbitrary: m g0)
  case Nil
  then show ?case by simp
next
  case (Cons x xs)
  from Cons.prems(2) [of 0 g0] Cons.prems(1)
  obtain g1 where g1: "f (m, x) g0 = Inr g1" "I (Suc m) g1" by auto
  have "\<exists>g'. fold_err f (enumerate (Suc m) xs) g1 = Inr g' \<and> I (Suc m + length xs) g'"
  proof (rule Cons.IH [OF g1(2)])
    fix i g assume "i < length xs" "I (Suc m + i) g"
    then show "\<exists>g'. f (Suc m + i, xs ! i) g = Inr g' \<and> I (Suc (Suc m + i)) g'"
      using Cons.prems(2) [of "Suc i" g] by simp
  qed
  then show ?case using g1(1) by simp
qed

lemma length_slice_update:
  "a + length vals \<le> length row \<Longrightarrow> length (slice_update a vals row) = length row"
  by (simp add: slice_update_def)

lemma nth_slice_update:
  "a + length vals \<le> length row \<Longrightarrow> j < length row \<Longrightarrow>
   slice_update a vals row ! j = (if a \<le> j \<and> j < a + length vals then vals ! (j - a) else row ! j)"
  by (auto simp: slice_update_def nth_append min_def)

lemma slice_update_Nil: "slice_update a [] row = row"
  by (simp add: slice_update_def)

lemma chunk_lt: "k < w \<Longrightarrow> j < i \<Longrightarrow> w * j + k < w * (i::nat)"
proof -
  assume "k < w" "j < i"
  then have "w * j + k < w * Suc j" by simp
  also have "\<dots> \<le> w * i" using \<open>j < i\<close> by (intro mult_le_mono2) simp
  finally show ?thesis .
qed

lemma chunk_ge: "i < j \<Longrightarrow> n \<le> w \<Longrightarrow> w * i + n \<le> w * (j::nat) + k"
proof -
  assume "i < j" "n \<le> w"
  then have "w * i + n \<le> w * Suc i" by simp
  also have "\<dots> \<le> w * j" using \<open>i < j\<close> by (intro mult_le_mono2) simp
  finally show ?thesis by simp
qed

lemma row_filled_init:
  "row_filled S mvp mvel P E len 0 (replicate (S * (mvp + mvel) + 1) (- 1))"
proof -
  have "mvp * j + k < S * (mvp + mvel) + 1" if "j < S" "k < mvp" for j k
  proof -
    have "mvp * j + k < mvp * S" using that by (simp add: chunk_lt)
    also have "\<dots> \<le> S * (mvp + mvel)" by (simp add: algebra_simps)
    finally show ?thesis by simp
  qed
  moreover have "mvp * S + mvel * j + k < S * (mvp + mvel) + 1" if "j < S" "k < mvel" for j k
  proof -
    have "mvel * j + k < mvel * S" using that by (simp add: chunk_lt)
    then have "mvp * S + mvel * j + k < mvp * S + mvel * S" by simp
    also have "\<dots> = S * (mvp + mvel)" by (simp add: algebra_simps)
    finally show ?thesis by simp
  qed
  ultimately show ?thesis by (simp add: row_filled_def del: replicate.simps)
qed

lemma row_filled_step:
  assumes inv: "row_filled S mvp mvel P E len i row"
    and i: "i < S" and lp: "length (P i) \<le> mvp" and le: "length (E i) \<le> mvel"
  shows "row_filled S mvp mvel P E len (Suc i)
           ((slice_update (mvp * S + mvel * i) (E i) (slice_update (mvp * i) (P i) row))
              [S * (mvp + mvel) := len])"
proof -
  define vs where "vs = S * (mvp + mvel)"
  define row1 where "row1 = slice_update (mvp * i) (P i) row"
  define row2 where "row2 = slice_update (mvp * S + mvel * i) (E i) row1"
  have len0: "length row = vs + 1"
    using inv by (simp add: row_filled_def vs_def)
  have vs: "mvp * S + mvel * S = vs" by (simp add: vs_def algebra_simps)
  have bP: "mvp * i + length (P i) \<le> mvp * S"
    using chunk_ge [of i S "length (P i)" mvp 0] i lp by simp
  have bE: "mvel * i + length (E i) \<le> mvel * S"
    using chunk_ge [of i S "length (E i)" mvel 0] i le by simp
  have okP: "mvp * i + length (P i) \<le> length row"
    using bP vs len0 by linarith
  have len1: "length row1 = vs + 1"
    unfolding row1_def using len0 by (simp add: length_slice_update [OF okP])
  have okE: "mvp * S + mvel * i + length (E i) \<le> length row1"
    using bE vs len1 by linarith
  have len2: "length row2 = vs + 1"
    unfolding row2_def using len1 by (simp add: length_slice_update [OF okE])
  have n1: "row1 ! q = (if mvp * i \<le> q \<and> q < mvp * i + length (P i) then P i ! (q - mvp * i) else row ! q)"
    if "q < vs + 1" for q
    unfolding row1_def using that len0 by (simp add: nth_slice_update [OF okP])
  have n2: "row2 ! q = (if mvp * S + mvel * i \<le> q \<and> q < mvp * S + mvel * i + length (E i)
                        then E i ! (q - (mvp * S + mvel * i)) else row1 ! q)"
    if "q < vs + 1" for q
    unfolding row2_def using that len1 by (simp add: nth_slice_update [OF okE])
  have Ppart: "(row2[vs := len]) ! (mvp * j + k) =
                 (if j < Suc i \<and> k < length (P j) then P j ! k else - 1)"
    if j: "j < S" and k: "k < mvp" for j k
  proof -
    define q where "q = mvp * j + k"
    have q: "q < mvp * S" using j k by (simp add: q_def chunk_lt)
    then have qvs: "q < vs" "q < vs + 1" using vs by linarith+
    have old: "row ! q = (if j < i \<and> k < length (P j) then P j ! k else - 1)"
      using inv j k by (simp add: row_filled_def q_def)
    have "(row2[vs := len]) ! q = row2 ! q" using qvs by simp
    also have "\<dots> = row1 ! q" using n2 [OF qvs(2)] q by simp
    also have "\<dots> = (if mvp * i \<le> q \<and> q < mvp * i + length (P i) then P i ! (q - mvp * i) else row ! q)"
      by (rule n1 [OF qvs(2)])
    also have "\<dots> = (if j < Suc i \<and> k < length (P j) then P j ! k else - 1)"
    proof -
      consider "j < i" | "j = i" | "i < j" by linarith
      then show ?thesis
      proof cases
        case 1
        then have "q < mvp * i" using k by (simp add: q_def chunk_lt)
        then show ?thesis using old 1 by simp
      next
        case 2
        then show ?thesis using old by (simp add: q_def)
      next
        case 3
        then have "mvp * i + length (P i) \<le> q"
          unfolding q_def using lp by (rule chunk_ge)
        then show ?thesis using old 3 by simp
      qed
    qed
    finally show ?thesis by (simp only: q_def)
  qed
  have Epart: "(row2[vs := len]) ! (mvp * S + mvel * j + k) =
                 (if j < Suc i \<and> k < length (E j) then E j ! k else - 1)"
    if j: "j < S" and k: "k < mvel" for j k
  proof -
    define q where "q = mvp * S + mvel * j + k"
    have "mvel * j + k < mvel * S" using j k by (simp add: chunk_lt)
    then have qvs: "q < vs" "q < vs + 1" and qge: "mvp * S \<le> q"
      using vs by (simp_all add: q_def)
    have old: "row ! q = (if j < i \<and> k < length (E j) then E j ! k else - 1)"
      using inv j k by (simp add: row_filled_def q_def)
    have r1: "row1 ! q = row ! q"
      using n1 [OF qvs(2)] bP qge by simp
    have "(row2[vs := len]) ! q = row2 ! q" using qvs by simp
    also have "\<dots> = (if mvp * S + mvel * i \<le> q \<and> q < mvp * S + mvel * i + length (E i)
                        then E i ! (q - (mvp * S + mvel * i)) else row ! q)"
      using n2 [OF qvs(2)] r1 by simp
    also have "\<dots> = (if j < Suc i \<and> k < length (E j) then E j ! k else - 1)"
    proof -
      consider "j < i" | "j = i" | "i < j" by linarith
      then show ?thesis
      proof cases
        case 1
        then have "mvel * j + k < mvel * i" using k by (simp add: chunk_lt)
        then have "q < mvp * S + mvel * i" by (simp add: q_def)
        then show ?thesis using old 1 by simp
      next
        case 2
        then show ?thesis using old by (simp add: q_def)
      next
        case 3
        then have "mvel * i + length (E i) \<le> mvel * j + k"
          using le by (rule chunk_ge)
        then have "mvp * S + mvel * i + length (E i) \<le> q" by (simp add: q_def)
        then show ?thesis using old 3 by simp
      qed
    qed
    finally show ?thesis by (simp only: q_def)
  qed
  have "length (row2[vs := len]) = S * (mvp + mvel) + 1"
    using len2 by (simp add: vs_def)
  moreover have "(row2[vs := len]) ! (S * (mvp + mvel)) = len"
    using len2 by (simp add: vs_def)
  ultimately have "row_filled S mvp mvel P E len (Suc i) (row2[vs := len])"
    unfolding row_filled_def using Ppart Epart by blast
  then show ?thesis by (simp only: row2_def row1_def vs_def)
qed

lemma unflatten_nth:
  "si < S \<Longrightarrow> unflatten S ys ! si = take (length ys div S) (drop (si * (length ys div S)) ys)"
  by (simp add: unflatten_def)

lemma in_set_take_drop:
  assumes "a + w \<le> length xs"
  shows "x \<in> set (take w (drop a xs)) \<longleftrightarrow> (\<exists>k<w. x = xs ! (a + k))"
proof -
  have "length (take w (drop a xs)) = w" using assms by simp
  then show ?thesis using assms by (auto simp: in_set_conv_nth)
qed

lemma row_filled_valid_positions:
  assumes inv: "row_filled S mvp mvel P E len S row"
    and si: "si < S" and lp: "length (P si) \<le> mvp" and x: "0 < x"
  shows "x \<in> set (unflatten S (take (mvp * S) row) ! si) \<longleftrightarrow> x \<in> set (P si)"
proof -
  define ys where "ys = take (mvp * S) row"
  have lrow: "length row = S * (mvp + mvel) + 1" using inv by (simp add: row_filled_def)
  have "mvp * S \<le> length row" by (simp add: lrow algebra_simps)
  then have lys: "length ys = mvp * S" by (simp add: ys_def)
  have w: "length ys div S = mvp" using si by (simp add: lys)
  have b: "si * mvp + mvp \<le> length ys"
    using chunk_ge [of si S mvp mvp 0] si by (simp add: lys mult.commute)
  have el: "ys ! (si * mvp + k) = (if k < length (P si) then P si ! k else - 1)" if "k < mvp" for k
  proof -
    have "mvp * si + k < mvp * S" using that si by (simp add: chunk_lt)
    then have "ys ! (mvp * si + k) = row ! (mvp * si + k)" by (simp add: ys_def)
    also have "\<dots> = (if k < length (P si) then P si ! k else - 1)"
      using inv si that by (simp add: row_filled_def)
    finally show ?thesis by (simp add: mult.commute)
  qed
  have "x \<in> set (unflatten S ys ! si) \<longleftrightarrow> (\<exists>k<mvp. x = ys ! (si * mvp + k))"
    unfolding unflatten_nth [OF si] w by (rule in_set_take_drop [OF b])
  also have "\<dots> \<longleftrightarrow> (\<exists>k<mvp. x = (if k < length (P si) then P si ! k else - 1))"
    using el by auto
  also have "\<dots> \<longleftrightarrow> (\<exists>k<length (P si). x = P si ! k)"
    using x lp by (auto split: if_splits intro: less_le_trans)
  also have "\<dots> \<longleftrightarrow> x \<in> set (P si)"
    by (auto simp: in_set_conv_nth)
  finally show ?thesis by (simp only: ys_def)
qed

lemma row_filled_end_lengths:
  assumes inv: "row_filled S mvp mvel P E len S row"
    and si: "si < S" and le: "length (E si) \<le> mvel" and x: "0 < x"
  shows "x \<in> set (unflatten S (drop (mvp * S) (butlast row)) ! si) \<longleftrightarrow> x \<in> set (E si)"
proof -
  define ys where "ys = drop (mvp * S) (butlast row)"
  have lrow: "length row = S * (mvp + mvel) + 1" using inv by (simp add: row_filled_def)
  have lys: "length ys = mvel * S" by (simp add: ys_def lrow algebra_simps)
  have w: "length ys div S = mvel" using si by (simp add: lys)
  have b: "si * mvel + mvel \<le> length ys"
    using chunk_ge [of si S mvel mvel 0] si by (simp add: lys mult.commute)
  have el: "ys ! (si * mvel + k) = (if k < length (E si) then E si ! k else - 1)" if "k < mvel" for k
  proof -
    have lt: "mvel * si + k < mvel * S" using that si by (simp add: chunk_lt)
    then have "mvp * S + (mvel * si + k) < length (butlast row)"
      by (simp add: lrow algebra_simps)
    then have "ys ! (mvel * si + k) = row ! (mvp * S + mvel * si + k)"
      using lt by (simp add: ys_def lys nth_butlast add.assoc)
    also have "\<dots> = (if k < length (E si) then E si ! k else - 1)"
      using inv si that by (simp add: row_filled_def)
    finally show ?thesis by (simp add: mult.commute)
  qed
  have "x \<in> set (unflatten S ys ! si) \<longleftrightarrow> (\<exists>k<mvel. x = ys ! (si * mvel + k))"
    unfolding unflatten_nth [OF si] w by (rule in_set_take_drop [OF b])
  also have "\<dots> \<longleftrightarrow> (\<exists>k<mvel. x = (if k < length (E si) then E si ! k else - 1))"
    using el by auto
  also have "\<dots> \<longleftrightarrow> (\<exists>k<length (E si). x = E si ! k)"
    using x le by (auto split: if_splits intro: less_le_trans)
  also have "\<dots> \<longleftrightarrow> x \<in> set (E si)"
    by (auto simp: in_set_conv_nth)
  finally show ?thesis by (simp only: ys_def)
qed

lemma row_filled_end_lengths_length:
  assumes inv: "row_filled S mvp mvel P E len S row" and si: "si < S"
  shows "length (unflatten S (drop (mvp * S) (butlast row)) ! si) = mvel"
proof -
  have lrow: "length row = S * (mvp + mvel) + 1" using inv by (simp add: row_filled_def)
  define ys where "ys = drop (mvp * S) (butlast row)"
  have lys: "length ys = mvel * S" by (simp add: ys_def lrow algebra_simps)
  have b: "si * mvel + mvel \<le> mvel * S"
    using chunk_ge [of si S mvel mvel 0] si by (simp add: mult.commute)
  have "length (unflatten S ys ! si) = mvel"
    unfolding unflatten_nth [OF si] using si b by (simp add: lys)
  then show ?thesis by (simp only: ys_def)
qed

lemma row_filled_last:
  assumes "row_filled S mvp mvel P E len S row" "0 < S"
  shows "last row = len"
proof -
  have "length row = S * (mvp + mvel) + 1" "row ! (S * (mvp + mvel)) = len"
    using assms by (simp_all add: row_filled_def)
  then show ?thesis by (cases row rule: rev_cases) (simp_all add: nth_append)
qed

lemma case_map_of_slice_update:
  "(case map_of d k of None \<Rightarrow> row | Some x \<Rightarrow> slice_update a x row) =
     slice_update a (dict_get d k) row"
  by (simp add: dict_get_def slice_update_Nil split: option.splits)

lemma dict_get_member:
  "distinct (map fst d) \<Longrightarrow> (k, x) \<in> set d \<Longrightarrow> dict_get d k = x"
  by (simp add: dict_get_def)

lemma fill_stop_string_step:
  assumes dv: "distinct (map snd v)"
    and rng: "\<forall>(tok, id) \<in> set v. 0 \<le> id \<and> id < int (length g)"
    and inv: "\<forall>(tok, id) \<in> set v.
                row_filled S mvp mvel (P tok) (E tok) (int (length tok)) i (g ! nat id)"
    and i: "i < S"
    and dP: "distinct (map fst (dict_get tvp s))"
    and kP: "\<forall>(k, x) \<in> set (dict_get tvp s). k \<in> snd ` set v"
    and gP: "\<forall>(tok, id) \<in> set v. dict_get (dict_get tvp s) id = P tok i"
    and dE: "distinct (map fst (dict_get teo s))"
    and kE: "\<forall>(k, x) \<in> set (dict_get teo s). k \<in> snd ` set v"
    and gE: "\<forall>(tok, id) \<in> set v. dict_get (dict_get teo s) id = E tok i"
    and lP: "\<forall>(tok, id) \<in> set v. length (P tok i) \<le> mvp"
    and lE: "\<forall>(tok, id) \<in> set v. length (E tok i) \<le> mvel"
  shows "\<exists>g'. fill_stop_string (map fst v) (map snd v) S mvp mvel tvp teo (i, s) g = Inr g' \<and>
           length g' = length g \<and>
           (\<forall>(tok, id) \<in> set v.
              row_filled S mvp mvel (P tok) (E tok) (int (length tok)) (Suc i) (g' ! nat id))"
proof -
  define vs where "vs = S * (mvp + mvel)"
  define pdP where "pdP = dict_get tvp s"
  define pdE where "pdE = dict_get teo s"
  have vsum: "mvp * S + mvel * S = vs" by (simp add: vs_def algebra_simps)
  have bP: "mvp * i + n \<le> mvp * S" if "n \<le> mvp" for n
    using chunk_ge [of i S n mvp 0] i that by simp
  have bE: "mvel * i + n \<le> mvel * S" if "n \<le> mvel" for n
    using chunk_ge [of i S n mvel 0] i that by simp
  have len0: "length (g ! nat id) = vs + 1" if "(tok, id) \<in> set v" for tok id
    using inv that by (auto simp: row_filled_def vs_def)
  have idr: "0 \<le> id" "id < int (length g)" "nat id < length g" if "(tok, id) \<in> set v" for tok id
    using rng that by auto
  have "\<exists>g1. fold_err (\<lambda>(k, x) g. set_slice g k (mvp * i) x) pdP g = Inr g1 \<and> length g1 = length g \<and>
          (\<forall>r < length g. g1 ! r = (case map_of pdP (int r) of None \<Rightarrow> g ! r
                                     | Some x \<Rightarrow> slice_update (mvp * i) x (g ! r)))"
  proof (rule fold_err_rows [where ok = "\<lambda>x row. mvp * i + length x \<le> length row"])
    show "distinct (map fst pdP)" using dP by (simp add: pdP_def)
    show "\<forall>(k, x) \<in> set pdP. 0 \<le> k \<and> k < int (length g) \<and> mvp * i + length x \<le> length (g ! nat k)"
    proof clarify
      fix k x assume m: "(k, x) \<in> set pdP"
      then obtain tok where t: "(tok, k) \<in> set v" using kP by (force simp: pdP_def)
      have "dict_get pdP k = x" using dP m by (simp add: pdP_def dict_get_member)
      then have "x = P tok i" using gP t by (auto simp: pdP_def)
      then have "length x \<le> mvp" using lP t by auto
      then have "mvp * i + length x \<le> vs + 1" using bP [of "length x"] vsum by linarith
      then show "0 \<le> k \<and> k < int (length g) \<and> mvp * i + length x \<le> length (g ! nat k)"
        using idr(1,2) [OF t] len0 [OF t] by simp
    qed
  qed (simp add: set_slice_row)
  then obtain g1 where g1: "fold_err (\<lambda>(k, x) g. set_slice g k (mvp * i) x) pdP g = Inr g1"
      "length g1 = length g"
      "\<And>r. r < length g \<Longrightarrow> g1 ! r = slice_update (mvp * i) (dict_get pdP (int r)) (g ! r)"
    unfolding case_map_of_slice_update by blast
  have row1: "g1 ! nat id = slice_update (mvp * i) (P tok i) (g ! nat id)"
    if "(tok, id) \<in> set v" for tok id
    using g1(3) [OF idr(3) [OF that]] idr(1) [OF that] gP that by (auto simp: pdP_def)
  have len1: "length (g1 ! nat id) = vs + 1" if "(tok, id) \<in> set v" for tok id
  proof -
    have "length (P tok i) \<le> mvp" using lP that by auto
    then have "mvp * i + length (P tok i) \<le> length (g ! nat id)"
      using bP [of "length (P tok i)"] vsum len0 [OF that] by linarith
    then show ?thesis using row1 [OF that] len0 [OF that] by (simp add: length_slice_update)
  qed
  have "\<exists>g2. fold_err (\<lambda>(k, x) g. set_slice g k (mvp * S + mvel * i) x) pdE g1 = Inr g2 \<and>
          length g2 = length g1 \<and>
          (\<forall>r < length g1. g2 ! r = (case map_of pdE (int r) of None \<Rightarrow> g1 ! r
                                      | Some x \<Rightarrow> slice_update (mvp * S + mvel * i) x (g1 ! r)))"
  proof (rule fold_err_rows [where ok = "\<lambda>x row. mvp * S + mvel * i + length x \<le> length row"])
    show "distinct (map fst pdE)" using dE by (simp add: pdE_def)
    show "\<forall>(k, x) \<in> set pdE. 0 \<le> k \<and> k < int (length g1) \<and>
             mvp * S + mvel * i + length x \<le> length (g1 ! nat k)"
    proof clarify
      fix k x assume m: "(k, x) \<in> set pdE"
      then obtain tok where t: "(tok, k) \<in> set v" using kE by (force simp: pdE_def)
      have "dict_get pdE k = x" using dE m by (simp add: pdE_def dict_get_member)
      then have "x = E tok i" using gE t by (auto simp: pdE_def)
      then have "length x \<le> mvel" using lE t by auto
      then have "mvp * S + mvel * i + length x \<le> vs + 1" using bE [of "length x"] vsum by linarith
      then show "0 \<le> k \<and> k < int (length g1) \<and> mvp * S + mvel * i + length x \<le> length (g1 ! nat k)"
        using idr(1,2) [OF t] len1 [OF t] g1(2) by simp
    qed
  qed (simp add: set_slice_row)
  then obtain g2 where g2: "fold_err (\<lambda>(k, x) g. set_slice g k (mvp * S + mvel * i) x) pdE g1 = Inr g2"
      "length g2 = length g"
      "\<And>r. r < length g \<Longrightarrow> g2 ! r = slice_update (mvp * S + mvel * i) (dict_get pdE (int r)) (g1 ! r)"
    unfolding case_map_of_slice_update g1(2) by blast
  have row2: "g2 ! nat id = slice_update (mvp * S + mvel * i) (E tok i) (g1 ! nat id)"
    if "(tok, id) \<in> set v" for tok id
    using g2(3) [OF idr(3) [OF that]] idr(1) [OF that] gE that by (auto simp: pdE_def)
  have len2: "length (g2 ! nat id) = vs + 1" if "(tok, id) \<in> set v" for tok id
  proof -
    have "length (E tok i) \<le> mvel" using lE that by auto
    then have "mvp * S + mvel * i + length (E tok i) \<le> length (g1 ! nat id)"
      using bE [of "length (E tok i)"] vsum len1 [OF that] by linarith
    then show ?thesis using row2 [OF that] len1 [OF that] by (simp add: length_slice_update)
  qed
  define lens where "lens = map (\<lambda>e. (snd e, int (length (fst e)))) v"
  have third: "fold_err (\<lambda>(token, token_idx) g. set_last g token_idx (int (length token)))
                 (zip (map fst v) (map snd v)) g2 =
               fold_err (\<lambda>(k, x) g. set_last g k x) lens g2"
    unfolding lens_def fold_err_map by (simp add: zip_map_fst_snd case_prod_unfold)
  have "\<exists>g3. fold_err (\<lambda>(k, x) g. set_last g k x) lens g2 = Inr g3 \<and> length g3 = length g2 \<and>
          (\<forall>r < length g2. g3 ! r = (case map_of lens (int r) of None \<Rightarrow> g2 ! r
                                      | Some x \<Rightarrow> (g2 ! r)[length (g2 ! r) - 1 := x]))"
  proof (rule fold_err_rows [where ok = "\<lambda>x row. row \<noteq> []" and f = "\<lambda>x row. row[length row - 1 := x]"])
    show "distinct (map fst lens)" using dv by (simp add: lens_def comp_def)
    show "\<forall>(k, x) \<in> set lens. 0 \<le> k \<and> k < int (length g2) \<and> g2 ! nat k \<noteq> []"
    proof clarify
      fix k x assume "(k, x) \<in> set lens"
      then obtain tok where t: "(tok, k) \<in> set v" by (auto simp: lens_def)
      have "length (g2 ! nat k) = vs + 1" by (rule len2 [OF t])
      then have "g2 ! nat k \<noteq> []" by auto
      then show "0 \<le> k \<and> k < int (length g2) \<and> g2 ! nat k \<noteq> []"
        using idr(1,2) [OF t] g2(2) by simp
    qed
  qed (simp add: set_last_row)
  then obtain g3 where g3: "fold_err (\<lambda>(k, x) g. set_last g k x) lens g2 = Inr g3"
      "length g3 = length g"
      "\<And>r. r < length g \<Longrightarrow> g3 ! r = (case map_of lens (int r) of None \<Rightarrow> g2 ! r
                                      | Some x \<Rightarrow> (g2 ! r)[length (g2 ! r) - 1 := x])"
    unfolding g2(2) by blast
  have row3: "g3 ! nat id = (g2 ! nat id)[vs := int (length tok)]"
    if "(tok, id) \<in> set v" for tok id
  proof -
    have "(id, int (length tok)) \<in> set lens" using that by (force simp: lens_def)
    moreover have "distinct (map fst lens)" using dv by (simp add: lens_def comp_def)
    ultimately have "map_of lens id = Some (int (length tok))" by simp
    then show ?thesis
      using g3(3) [OF idr(3) [OF that]] idr(1) [OF that] len2 [OF that] by simp
  qed
  have fin: "row_filled S mvp mvel (P tok) (E tok) (int (length tok)) (Suc i) (g3 ! nat id)"
    if "(tok, id) \<in> set v" for tok id
  proof -
    have "row_filled S mvp mvel (P tok) (E tok) (int (length tok)) i (g ! nat id)"
      "length (P tok i) \<le> mvp" "length (E tok i) \<le> mvel"
      using inv lP lE that by auto
    then have "row_filled S mvp mvel (P tok) (E tok) (int (length tok)) (Suc i)
           ((slice_update (mvp * S + mvel * i) (E tok i) (slice_update (mvp * i) (P tok i) (g ! nat id)))
              [S * (mvp + mvel) := int (length tok)])"
      using i by (intro row_filled_step)
    then show ?thesis
      by (simp only: row3 [OF that] row2 [OF that] row1 [OF that] vs_def)
  qed
  have "fill_stop_string (map fst v) (map snd v) S mvp mvel tvp teo (i, s) g = Inr g3"
    using g1(1) g2(1) g3(1) third by (simp add: fill_stop_string_def pdP_def pdE_def)
  then show ?thesis using g3(2) fin by auto
qed


section \<open>The table of a constructed criterion\<close>

lemma cleanup_token_eq:
  "cleanup_token t = (if t = [] then Inl IndexError else Inr (cleaned t))"
  by (cases t) (simp_all add: cleanup_token_def cleaned_def)

lemma length_cleaned: "length (cleaned t) = length t"
  by (cases t) (simp_all add: cleanup_token_def cleaned_def)

lemma map_err_cleanup_token:
  "map_err cleanup_token ts = (if [] \<in> set ts then Inl IndexError else Inr (map cleaned ts))"
  by (induction ts) (auto simp: cleanup_token_eq)

lemma zip_vocab:
  "zip (map fst v) (zip (map rev (map cleaned (map fst v))) (map snd v)) =
     map (\<lambda>e. (fst e, rev (cleaned (fst e)), snd e)) v"
  by (induction v) simp_all

lemma stop_string_positions_facts:
  fixes v :: "(ustr \<times> int) list"
  assumes dv: "distinct (map snd v)"
  defines "H \<equiv> stop_string_positions (map fst v) (map rev (map cleaned (map fst v))) (map snd v)"
  shows "distinct (map fst (fst (H s)))"
    and "distinct (map fst (snd (H s)))"
    and "\<forall>(k, x) \<in> set (fst (H s)). x \<noteq> [] \<and> (\<exists>tok. (tok, k) \<in> set v \<and> x = valid_positions_of tok s)"
    and "\<forall>(k, x) \<in> set (snd (H s)). x \<noteq> [] \<and> (\<exists>tok. (tok, k) \<in> set v \<and> x = end_overlaps_of tok s)"
    and "\<forall>(tok, id) \<in> set v. dict_get (fst (H s)) id = valid_positions_of tok s"
    and "\<forall>(tok, id) \<in> set v. dict_get (snd (H s)) id = end_overlaps_of tok s"
proof -
  define zs where "zs = map (\<lambda>e. (fst e, rev (cleaned (fst e)), snd e)) v"
  define key :: "ustr \<times> ustr \<times> int \<Rightarrow> int" where "key = (\<lambda>e. snd (snd e))"
  define fP :: "ustr \<times> ustr \<times> int \<Rightarrow> int list"
    where "fP = (\<lambda>e. fst (token_positions (fst e) (fst (snd e)) s))"
  define fE :: "ustr \<times> ustr \<times> int \<Rightarrow> int list"
    where "fE = (\<lambda>e. snd (token_positions (fst e) (fst (snd e)) s))"
  have HP: "fst (H s) = fold (\<lambda>e d. if fP e \<noteq> [] then AList.update (key e) (fP e) d else d) zs []"
    unfolding H_def stop_string_positions_def zip_vocab fst_fold_token_step zs_def key_def fP_def
    by simp
  have HE: "snd (H s) = fold (\<lambda>e d. if fE e \<noteq> [] then AList.update (key e) (fE e) d else d) zs []"
    unfolding H_def stop_string_positions_def zip_vocab snd_fold_token_step zs_def key_def fE_def
    by simp
  have dk: "distinct (map key zs)"
    using dv by (simp add: zs_def key_def comp_def)
  have mem: "(tok, rev (cleaned tok), id) \<in> set zs" if "(tok, id) \<in> set v" for tok id
    using that by (force simp: zs_def)
  have zsD: "\<exists>tok. (tok, key e) \<in> set v \<and> fP e = valid_positions_of tok s \<and> fE e = end_overlaps_of tok s"
    if "e \<in> set zs" for e
    using that by (auto simp: zs_def key_def fP_def fE_def valid_positions_of_def end_overlaps_of_def)
  have propsP: "distinct (map fst (fold (\<lambda>e d. if fP e \<noteq> [] then AList.update (key e) (fP e) d else d) zs [])) \<and>
      (\<forall>(k, x) \<in> set (fold (\<lambda>e d. if fP e \<noteq> [] then AList.update (key e) (fP e) d else d) zs []).
          x \<noteq> [] \<and> (\<exists>tok. (tok, k) \<in> set v \<and> x = valid_positions_of tok s))"
    by (rule dict_fill_props [where Q = "\<lambda>k x. x \<noteq> [] \<and> (\<exists>tok. (tok, k) \<in> set v \<and> x = valid_positions_of tok s)"])
       (use zsD in \<open>simp, simp, blast\<close>)
  have propsE: "distinct (map fst (fold (\<lambda>e d. if fE e \<noteq> [] then AList.update (key e) (fE e) d else d) zs [])) \<and>
      (\<forall>(k, x) \<in> set (fold (\<lambda>e d. if fE e \<noteq> [] then AList.update (key e) (fE e) d else d) zs []).
          x \<noteq> [] \<and> (\<exists>tok. (tok, k) \<in> set v \<and> x = end_overlaps_of tok s))"
    by (rule dict_fill_props [where Q = "\<lambda>k x. x \<noteq> [] \<and> (\<exists>tok. (tok, k) \<in> set v \<and> x = end_overlaps_of tok s)"])
       (use zsD in \<open>simp, simp, blast\<close>)
  show "distinct (map fst (fst (H s)))"
    unfolding HP using propsP by (rule conjunct1)
  show "distinct (map fst (snd (H s)))"
    unfolding HE using propsE by (rule conjunct1)
  show "\<forall>(k, x) \<in> set (fst (H s)). x \<noteq> [] \<and> (\<exists>tok. (tok, k) \<in> set v \<and> x = valid_positions_of tok s)"
    unfolding HP using propsP by (rule conjunct2)
  show "\<forall>(k, x) \<in> set (snd (H s)). x \<noteq> [] \<and> (\<exists>tok. (tok, k) \<in> set v \<and> x = end_overlaps_of tok s)"
    unfolding HE using propsE by (rule conjunct2)
  show "\<forall>(tok, id) \<in> set v. dict_get (fst (H s)) id = valid_positions_of tok s"
  proof clarify
    fix tok id assume m: "(tok, id) \<in> set v"
    have "dict_get (fold (\<lambda>e d. if fP e \<noteq> [] then AList.update (key e) (fP e) d else d) zs [])
            (key (tok, rev (cleaned tok), id)) = fP (tok, rev (cleaned tok), id)"
      using dk mem [OF m] by (rule dict_fill_lookup)
    then show "dict_get (fst (H s)) id = valid_positions_of tok s"
      unfolding HP by (simp add: key_def fP_def valid_positions_of_def)
  qed
  show "\<forall>(tok, id) \<in> set v. dict_get (snd (H s)) id = end_overlaps_of tok s"
  proof clarify
    fix tok id assume m: "(tok, id) \<in> set v"
    have "dict_get (fold (\<lambda>e d. if fE e \<noteq> [] then AList.update (key e) (fE e) d else d) zs [])
            (key (tok, rev (cleaned tok), id)) = fE (tok, rev (cleaned tok), id)"
      using dk mem [OF m] by (rule dict_fill_lookup)
    then show "dict_get (snd (H s)) id = end_overlaps_of tok s"
      unfolding HE by (simp add: key_def fE_def end_overlaps_of_def)
  qed
qed

lemma get_matching_positions_eq:
  "stop_string_get_matching_positions (map fst v) (map snd v) ss =
     (if [] \<in> fst ` set v then Inl IndexError
      else Inr (fold (\<lambda>s acc.
                 (let r = stop_string_positions (map fst v) (map rev (map cleaned (map fst v))) (map snd v) s
                  in (AList.update s (fst r) (fst acc), AList.update s (snd r) (snd acc))))
               ss ([], [])))"
  by (simp add: stop_string_get_matching_positions_def map_err_cleanup_token)

lemma lengths_member:
  "x \<in> set (concat (map (\<lambda>(s, positions). map (\<lambda>(k, val). length val) positions) d)) \<longleftrightarrow>
     (\<exists>s pd k val. (s, pd) \<in> set d \<and> (k, val) \<in> set pd \<and> x = length val)"
  by force

lemma dict_get_nonempty_member: "dict_get d k \<noteq> [] \<Longrightarrow> (k, dict_get d k) \<in> set d"
  by (auto simp: dict_get_def split: option.splits dest: map_of_SomeD)

lemma matching_positions_facts:
  fixes v :: "(ustr \<times> int) list" and ss :: "ustr list"
  assumes dv: "distinct (map snd v)"
  defines "H \<equiv> stop_string_positions (map fst v) (map rev (map cleaned (map fst v))) (map snd v)"
  defines "D \<equiv> fold (\<lambda>s acc. (let r = H s in (AList.update s (fst r) (fst acc), AList.update s (snd r) (snd acc)))) ss ([], [])"
  defines "Plist \<equiv> concat (map (\<lambda>(s, positions). map (\<lambda>(k, val). length val) positions) (fst D))"
  defines "Elist \<equiv> concat (map (\<lambda>(s, positions). map (\<lambda>(k, val). length val) positions) (snd D))"
  shows "\<And>s. s \<in> set ss \<Longrightarrow> dict_get (fst D) s = fst (H s)"
    and "\<And>s. s \<in> set ss \<Longrightarrow> dict_get (snd D) s = snd (H s)"
    and "Plist \<noteq> [] \<longleftrightarrow> (\<exists>(tok, id) \<in> set v. \<exists>s \<in> set ss. valid_positions_of tok s \<noteq> [])"
    and "Elist \<noteq> [] \<longleftrightarrow> (\<exists>(tok, id) \<in> set v. \<exists>s \<in> set ss. end_overlaps_of tok s \<noteq> [])"
    and "\<And>tok id s. (tok, id) \<in> set v \<Longrightarrow> s \<in> set ss \<Longrightarrow> valid_positions_of tok s \<noteq> [] \<Longrightarrow>
           length (valid_positions_of tok s) \<in> set Plist"
    and "\<And>tok id s. (tok, id) \<in> set v \<Longrightarrow> s \<in> set ss \<Longrightarrow> end_overlaps_of tok s \<noteq> [] \<Longrightarrow>
           length (end_overlaps_of tok s) \<in> set Elist"
    and "\<And>x. x \<in> set Elist \<Longrightarrow> 0 < x"
proof -
  note facts = stop_string_positions_facts [OF dv, folded H_def]
  have lk: "map_of (fst D) s = Some (fst (H s))" "map_of (snd D) s = Some (snd (H s))"
    if "s \<in> set ss" for s
    using strdict_lookup [of H ss "([], [])" s] that by (simp_all add: D_def)
  show gP: "dict_get (fst D) s = fst (H s)" if "s \<in> set ss" for s
    using lk(1) [OF that] by (simp add: dict_get_def)
  show gE: "dict_get (snd D) s = snd (H s)" if "s \<in> set ss" for s
    using lk(2) [OF that] by (simp add: dict_get_def)
  have ent: "(\<forall>(k, d) \<in> set (fst D). \<exists>s \<in> set ss. d = fst (H s)) \<and>
             (\<forall>(k, d) \<in> set (snd D). \<exists>s \<in> set ss. d = snd (H s))"
    unfolding D_def
    by (rule strdict_entries [where ?Q1.0 = "\<lambda>d. \<exists>s \<in> set ss. d = fst (H s)"
                               and ?Q2.0 = "\<lambda>d. \<exists>s \<in> set ss. d = snd (H s)"]) auto
  show inP: "length (valid_positions_of tok s) \<in> set Plist"
    if "(tok, id) \<in> set v" "s \<in> set ss" "valid_positions_of tok s \<noteq> []" for tok id s
  proof -
    have "dict_get (fst (H s)) id = valid_positions_of tok s" using facts(5) [of s] that(1) by auto
    then have "(id, valid_positions_of tok s) \<in> set (fst (H s))"
      using dict_get_nonempty_member [of "fst (H s)" id] that(3) by simp
    moreover have "(s, fst (H s)) \<in> set (fst D)" using lk(1) [OF that(2)] by (rule map_of_SomeD)
    ultimately show ?thesis unfolding Plist_def lengths_member by blast
  qed
  show inE: "length (end_overlaps_of tok s) \<in> set Elist"
    if "(tok, id) \<in> set v" "s \<in> set ss" "end_overlaps_of tok s \<noteq> []" for tok id s
  proof -
    have "dict_get (snd (H s)) id = end_overlaps_of tok s" using facts(6) [of s] that(1) by auto
    then have "(id, end_overlaps_of tok s) \<in> set (snd (H s))"
      using dict_get_nonempty_member [of "snd (H s)" id] that(3) by simp
    moreover have "(s, snd (H s)) \<in> set (snd D)" using lk(2) [OF that(2)] by (rule map_of_SomeD)
    ultimately show ?thesis unfolding Elist_def lengths_member by blast
  qed
  have PD: "\<exists>tok id s. (tok, id) \<in> set v \<and> s \<in> set ss \<and> valid_positions_of tok s \<noteq> [] \<and>
              x = length (valid_positions_of tok s)" if "x \<in> set Plist" for x
  proof -
    from that obtain s' pd k val where a: "(s', pd) \<in> set (fst D)" "(k, val) \<in> set pd" "x = length val"
      unfolding Plist_def lengths_member by blast
    from a(1) ent obtain s where s: "s \<in> set ss" "pd = fst (H s)" by auto
    from facts(3) [of s] a(2) s(2) obtain tok where "val \<noteq> []" "(tok, k) \<in> set v" "val = valid_positions_of tok s"
      by auto
    with s(1) a(3) show ?thesis by blast
  qed
  have ED: "\<exists>tok id s. (tok, id) \<in> set v \<and> s \<in> set ss \<and> end_overlaps_of tok s \<noteq> [] \<and>
              x = length (end_overlaps_of tok s)" if "x \<in> set Elist" for x
  proof -
    from that obtain s' pd k val where a: "(s', pd) \<in> set (snd D)" "(k, val) \<in> set pd" "x = length val"
      unfolding Elist_def lengths_member by blast
    from a(1) ent obtain s where s: "s \<in> set ss" "pd = snd (H s)" by auto
    from facts(4) [of s] a(2) s(2) obtain tok where "val \<noteq> []" "(tok, k) \<in> set v" "val = end_overlaps_of tok s"
      by auto
    with s(1) a(3) show ?thesis by blast
  qed
  show "0 < x" if "x \<in> set Elist" for x
    using ED [OF that] by auto
  show "Plist \<noteq> [] \<longleftrightarrow> (\<exists>(tok, id) \<in> set v. \<exists>s \<in> set ss. valid_positions_of tok s \<noteq> [])"
  proof
    assume "Plist \<noteq> []"
    then obtain x where "x \<in> set Plist" by (cases Plist) auto
    from PD [OF this] show "\<exists>(tok, id) \<in> set v. \<exists>s \<in> set ss. valid_positions_of tok s \<noteq> []" by blast
  next
    assume "\<exists>(tok, id) \<in> set v. \<exists>s \<in> set ss. valid_positions_of tok s \<noteq> []"
    then obtain tok id s where "(tok, id) \<in> set v" "s \<in> set ss" "valid_positions_of tok s \<noteq> []" by auto
    from inP [OF this] show "Plist \<noteq> []" by auto
  qed
  show "Elist \<noteq> [] \<longleftrightarrow> (\<exists>(tok, id) \<in> set v. \<exists>s \<in> set ss. end_overlaps_of tok s \<noteq> [])"
  proof
    assume "Elist \<noteq> []"
    then obtain x where "x \<in> set Elist" by (cases Elist) auto
    from ED [OF this] show "\<exists>(tok, id) \<in> set v. \<exists>s \<in> set ss. end_overlaps_of tok s \<noteq> []" by blast
  next
    assume "\<exists>(tok, id) \<in> set v. \<exists>s \<in> set ss. end_overlaps_of tok s \<noteq> []"
    then obtain tok id s where "(tok, id) \<in> set v" "s \<in> set ss" "end_overlaps_of tok s \<noteq> []" by auto
    from inE [OF this] show "Elist \<noteq> []" by auto
  qed
qed

lemma create_embedding_vec_succeeds:
  fixes v :: "(ustr \<times> int) list" and ss :: "ustr list"
  assumes dv: "distinct (map snd v)"
    and rng: "\<forall>(tok, id) \<in> set v. 0 \<le> id \<and> id < int (length v)"
    and ne: "[] \<notin> fst ` set v"
    and exP: "\<exists>(tok, id) \<in> set v. \<exists>s \<in> set ss. valid_positions_of tok s \<noteq> []"
    and exE: "\<exists>(tok, id) \<in> set v. \<exists>s \<in> set ss. end_overlaps_of tok s \<noteq> []"
  shows "\<exists>ev mvp mvel.
           stop_string_create_embedding_vec (map fst v) (map snd v) ss = Inr (ev, mvp, mvel) \<and>
           length ev = length v \<and> 0 < mvel \<and>
           (\<forall>(tok, id) \<in> set v.
              row_filled (length ss) mvp mvel (\<lambda>j. valid_positions_of tok (ss ! j))
                (\<lambda>j. end_overlaps_of tok (ss ! j)) (int (length tok)) (length ss) (ev ! nat id)) \<and>
           (\<forall>(tok, id) \<in> set v. \<forall>s \<in> set ss.
              length (valid_positions_of tok s) \<le> mvp \<and> length (end_overlaps_of tok s) \<le> mvel)"
proof -
  define H where "H = stop_string_positions (map fst v) (map rev (map cleaned (map fst v))) (map snd v)"
  define D where "D = fold (\<lambda>s acc. (let r = H s in (AList.update s (fst r) (fst acc), AList.update s (snd r) (snd acc)))) ss ([], [])"
  define Plist where "Plist = concat (map (\<lambda>(s, positions). map (\<lambda>(k, val). length val) positions) (fst D))"
  define Elist where "Elist = concat (map (\<lambda>(s, positions). map (\<lambda>(k, val). length val) positions) (snd D))"
  define S where "S = length ss"
  note sf = stop_string_positions_facts [OF dv, folded H_def]
  note mf = matching_positions_facts [OF dv, where ss = ss, folded H_def, folded D_def, folded Plist_def Elist_def]
  have gmp: "stop_string_get_matching_positions (map fst v) (map snd v) ss = Inr (fst D, snd D)"
    using ne by (simp add: get_matching_positions_eq D_def H_def)
  have "Plist \<noteq> []" "Elist \<noteq> []" using mf(3,4) exP exE by auto
  then obtain mvp mvel where mx: "py_max Plist = Inr mvp" "py_max Elist = Inr mvel"
    by (auto simp: py_max_def)
  have lp: "length (valid_positions_of tok s) \<le> mvp" if "(tok, id) \<in> set v" "s \<in> set ss" for tok id s
  proof (cases "valid_positions_of tok s = []")
    case True then show ?thesis by simp
  next
    case False
    from mf(5) [OF that False] show ?thesis by (rule py_max_ge [OF mx(1)])
  qed
  have le: "length (end_overlaps_of tok s) \<le> mvel" if "(tok, id) \<in> set v" "s \<in> set ss" for tok id s
  proof (cases "end_overlaps_of tok s = []")
    case True then show ?thesis by simp
  next
    case False
    from mf(6) [OF that False] show ?thesis by (rule py_max_ge [OF mx(2)])
  qed
  have mvel: "0 < mvel"
  proof -
    from \<open>Elist \<noteq> []\<close> obtain x where x: "x \<in> set Elist" by (cases Elist) auto
    have "0 < x" by (rule mf(7) [OF x])
    moreover have "x \<le> mvel" by (rule py_max_ge [OF mx(2) x])
    ultimately show ?thesis by simp
  qed
  define I where "I = (\<lambda>i g. length g = length v \<and>
      (\<forall>(tok, id) \<in> set v.
         row_filled S mvp mvel (\<lambda>j. valid_positions_of tok (ss ! j))
           (\<lambda>j. end_overlaps_of tok (ss ! j)) (int (length tok)) i (g ! nat id)))"
  have "\<exists>ev. fold_err (fill_stop_string (map fst v) (map snd v) S mvp mvel (fst D) (snd D))
                (enumerate 0 ss) (replicate (length v) (replicate (S * (mvp + mvel) + 1) (- 1))) = Inr ev \<and>
             I (0 + length ss) ev"
  proof (rule fold_err_enumerate_inv)
    show "I 0 (replicate (length v) (replicate (S * (mvp + mvel) + 1) (- 1)))"
    proof -
      have rf: "row_filled S mvp mvel P E len 0 (replicate (Suc (S * (mvp + mvel))) (- 1))" for P E len
        using row_filled_init [of S mvp mvel P E len] by simp
      have "replicate (length v) r ! nat id = r" if "(tok, id) \<in> set v" for tok id and r :: "int list"
        using rng that by auto
      then show ?thesis unfolding I_def using rf by auto
    qed
  next
    fix i g assume i: "i < length ss" and inv: "I (0 + i) g"
    have si: "ss ! i \<in> set ss" using i by simp
    have "\<exists>g'. fill_stop_string (map fst v) (map snd v) S mvp mvel (fst D) (snd D) (i, ss ! i) g = Inr g' \<and>
           length g' = length g \<and>
           (\<forall>(tok, id) \<in> set v.
              row_filled S mvp mvel (\<lambda>j. valid_positions_of tok (ss ! j))
                (\<lambda>j. end_overlaps_of tok (ss ! j)) (int (length tok)) (Suc i) (g' ! nat id))"
    proof (rule fill_stop_string_step [OF dv])
      show "\<forall>(tok, id) \<in> set v. 0 \<le> id \<and> id < int (length g)"
        using rng inv by (simp add: I_def)
      show "\<forall>(tok, id) \<in> set v.
              row_filled S mvp mvel (\<lambda>j. valid_positions_of tok (ss ! j))
                (\<lambda>j. end_overlaps_of tok (ss ! j)) (int (length tok)) i (g ! nat id)"
        using inv by (simp add: I_def)
      show "i < S" using i by (simp add: S_def)
      show "distinct (map fst (dict_get (fst D) (ss ! i)))"
        unfolding mf(1) [OF si] by (rule sf(1))
      show "distinct (map fst (dict_get (snd D) (ss ! i)))"
        unfolding mf(2) [OF si] by (rule sf(2))
      show "\<forall>(k, x) \<in> set (dict_get (fst D) (ss ! i)). k \<in> snd ` set v"
        unfolding mf(1) [OF si] using sf(3) [of "ss ! i"] by force
      show "\<forall>(k, x) \<in> set (dict_get (snd D) (ss ! i)). k \<in> snd ` set v"
        unfolding mf(2) [OF si] using sf(4) [of "ss ! i"] by force
      show "\<forall>(tok, id) \<in> set v. dict_get (dict_get (fst D) (ss ! i)) id = valid_positions_of tok (ss ! i)"
        unfolding mf(1) [OF si] by (rule sf(5))
      show "\<forall>(tok, id) \<in> set v. dict_get (dict_get (snd D) (ss ! i)) id = end_overlaps_of tok (ss ! i)"
        unfolding mf(2) [OF si] by (rule sf(6))
      show "\<forall>(tok, id) \<in> set v. length (valid_positions_of tok (ss ! i)) \<le> mvp"
        using lp si by auto
      show "\<forall>(tok, id) \<in> set v. length (end_overlaps_of tok (ss ! i)) \<le> mvel"
        using le si by auto
    qed
    then show "\<exists>g'. fill_stop_string (map fst v) (map snd v) S mvp mvel (fst D) (snd D) (0 + i, ss ! i) g = Inr g' \<and>
                 I (Suc (0 + i)) g'"
      using inv by (auto simp: I_def)
  qed
  then obtain ev where ev: "fold_err (fill_stop_string (map fst v) (map snd v) S mvp mvel (fst D) (snd D))
                (enumerate 0 ss) (replicate (length v) (replicate (S * (mvp + mvel) + 1) (- 1))) = Inr ev"
      "I S ev"
    by (auto simp: S_def)
  have "stop_string_create_embedding_vec (map fst v) (map snd v) ss = Inr (ev, mvp, mvel)"
    using gmp mx ev(1)
    by (cases D) (simp add: stop_string_create_embedding_vec_def Plist_def Elist_def S_def Let_def)
  moreover have "length ev = length v"
    using ev(2) by (simp add: I_def)
  moreover have "\<forall>(tok, id) \<in> set v.
              row_filled (length ss) mvp mvel (\<lambda>j. valid_positions_of tok (ss ! j))
                (\<lambda>j. end_overlaps_of tok (ss ! j)) (int (length tok)) (length ss) (ev ! nat id)"
    using ev(2) by (simp add: I_def S_def)
  moreover have "\<forall>(tok, id) \<in> set v. \<forall>s \<in> set ss.
              length (valid_positions_of tok s) \<le> mvp \<and> length (end_overlaps_of tok s) \<le> mvel"
    using lp le by auto
  ultimately show ?thesis using mvel by blast
qed

lemma create_embedding_vec_fails:
  fixes v :: "(ustr \<times> int) list" and ss :: "ustr list"
  assumes dv: "distinct (map snd v)"
    and "[] \<in> fst ` set v \<or>
         \<not> (\<exists>(tok, id) \<in> set v. \<exists>s \<in> set ss. valid_positions_of tok s \<noteq> []) \<or>
         \<not> (\<exists>(tok, id) \<in> set v. \<exists>s \<in> set ss. end_overlaps_of tok s \<noteq> [])"
  shows "\<exists>e. stop_string_create_embedding_vec (map fst v) (map snd v) ss = Inl e"
proof (cases "[] \<in> fst ` set v")
  case True
  then show ?thesis
    by (simp add: stop_string_create_embedding_vec_def get_matching_positions_eq)
next
  case False
  define H where "H = stop_string_positions (map fst v) (map rev (map cleaned (map fst v))) (map snd v)"
  define D where "D = fold (\<lambda>s acc. (let r = H s in (AList.update s (fst r) (fst acc), AList.update s (snd r) (snd acc)))) ss ([], [])"
  define Plist where "Plist = concat (map (\<lambda>(s, positions). map (\<lambda>(k, val). length val) positions) (fst D))"
  define Elist where "Elist = concat (map (\<lambda>(s, positions). map (\<lambda>(k, val). length val) positions) (snd D))"
  note mf = matching_positions_facts [OF dv, where ss = ss, folded H_def, folded D_def, folded Plist_def Elist_def]
  have gmp: "stop_string_get_matching_positions (map fst v) (map snd v) ss = Inr (fst D, snd D)"
    using False by (simp add: get_matching_positions_eq D_def H_def)
  have "Plist = [] \<or> Elist = []" using mf(3,4) assms(2) False by blast
  then have "py_max Plist = Inl ValueError \<or> (\<exists>m. py_max Plist = Inr m \<and> py_max Elist = Inl ValueError)"
    by (auto simp: py_max_def)
  then show ?thesis
    using gmp
    by (cases D) (auto simp: stop_string_create_embedding_vec_def Plist_def Elist_def Let_def)
qed


section \<open>The matcher in terms of text\<close>

lemma filter_vocab:
  "distinct (map snd v) \<Longrightarrow> (tok, k) \<in> set v \<Longrightarrow> filter (\<lambda>e. snd e = k) v = [(tok, k)]"
proof (induction v)
  case Nil
  then show ?case by simp
next
  case (Cons e v)
  show ?case
  proof (cases "e = (tok, k)")
    case True
    have "k \<notin> snd ` set v" using Cons.prems(1) True by simp
    then have "filter (\<lambda>e. snd e = k) v = []" by (auto simp: filter_empty_conv)
    then show ?thesis using True by simp
  next
    case False
    then have m: "(tok, k) \<in> set v" using Cons.prems(2) by simp
    then have "k \<in> snd ` set v" by force
    then have "snd e \<noteq> k" using Cons.prems(1) by auto
    then show ?thesis using Cons.IH m Cons.prems(1) by simp
  qed
qed

lemma token_text_eq:
  "distinct (map snd v) \<Longrightarrow> (tok, k) \<in> set v \<Longrightarrow> token_text v k = cleaned tok"
  by (simp add: token_text_def filter_vocab)

lemma ends_in_last_token_snoc:
  "ends_in_last_token s (xs @ [t]) \<longleftrightarrow> (\<exists>p. 1 \<le> p \<and> p \<le> length t \<and> suffix s (concat xs @ take p t))"
  by (auto simp: ends_in_last_token_def list_ex_iff)

lemma string_matches_iff:
  fixes v :: "(ustr \<times> int) list" and ss :: "ustr list"
  assumes dv: "distinct (map snd v)"
    and ne: "[] \<notin> fst ` set v"
    and n: "num_stop_strings c = length ss"
    and tl: "target_lens c = map (\<lambda>s. int (length s)) ss"
    and mvel: "0 < max_valid_end_lens c"
    and rows: "\<forall>(tok, id) \<in> set v.
        row_filled (length ss) (max_valid_positions c) (max_valid_end_lens c)
          (\<lambda>j. valid_positions_of tok (ss ! j)) (\<lambda>j. end_overlaps_of tok (ss ! j))
          (int (length tok)) (length ss) (embedding_vec c ! nat id)"
    and bounds: "\<forall>(tok, id) \<in> set v. \<forall>s \<in> set ss.
        length (valid_positions_of tok s) \<le> max_valid_positions c \<and>
        length (end_overlaps_of tok s) \<le> max_valid_end_lens c"
    and ids: "ids \<noteq> []" "set ids \<subseteq> snd ` set v"
    and si: "si < length ss"
  shows "string_matches c (map (\<lambda>id. embedding_vec c ! nat id) (rev ids)) si \<longleftrightarrow>
           ends_in_last_token (ss ! si) (map (token_text v) ids)"
proof -
  define S where "S = length ss"
  define mvp where "mvp = max_valid_positions c"
  define mvl where "mvl = max_valid_end_lens c"
  define ev where "ev = embedding_vec c"
  define s where "s = ss ! si"
  define L where "L = length s"
  define tx where "tx = token_text v"
  define vpf where "vpf = (\<lambda>id. unflatten S (take (mvp * S) (ev ! nat id)) ! si)"
  have sS: "si < S" "0 < S" using si by (auto simp: S_def)
  have sin: "s \<in> set ss" using si by (simp add: s_def)
  from ids(1) obtain older newest where idsE: "ids = older @ [newest]"
    by (cases ids rule: rev_cases) auto
  have tokE: "\<exists>tok. (tok, x) \<in> set v" if "x \<in> set ids" for x
    using ids(2) that by force
  have rf: "row_filled S mvp mvl (\<lambda>j. valid_positions_of tok (ss ! j)) (\<lambda>j. end_overlaps_of tok (ss ! j))
              (int (length tok)) S (ev ! nat x)" if "(tok, x) \<in> set v" for tok x
    using rows that by (auto simp: S_def mvp_def mvl_def ev_def)
  have bP: "length (valid_positions_of tok s) \<le> mvp" and bE: "length (end_overlaps_of tok s) \<le> mvl"
    if "(tok, x) \<in> set v" for tok x
    using bounds that sin by (auto simp: mvp_def mvl_def)
  have lens: "last (ev ! nat x) = int (length (tx x))" if "x \<in> set ids" for x
  proof -
    from tokE [OF that] obtain tok where t: "(tok, x) \<in> set v" by blast
    have "last (ev ! nat x) = int (length tok)" using rf [OF t] sS(2) by (rule row_filled_last)
    then show ?thesis by (simp add: tx_def token_text_eq [OF dv t] length_cleaned)
  qed
  have vps: "int k \<in> set (vpf x) \<longleftrightarrow>
               k < length s \<and> suffix (drop (length s - k - length (tx x)) (take (length s - k) s)) (tx x)"
    if "x \<in> set ids" "0 < k" for x k
  proof -
    from tokE [OF that(1)] obtain tok where t: "(tok, x) \<in> set v" by blast
    have "int k \<in> set (vpf x) \<longleftrightarrow> int k \<in> set (valid_positions_of tok (ss ! si))"
      unfolding vpf_def
      by (rule row_filled_valid_positions [OF rf [OF t] sS(1)])
         (use bP [OF t] that(2) in \<open>simp_all add: s_def\<close>)
    also have "\<dots> \<longleftrightarrow> 0 < k \<and> k < length s \<and>
        suffix (drop (length s - k - length (cleaned tok)) (take (length s - k) s)) (cleaned tok)"
      unfolding valid_positions_of_def s_def [symmetric] by (rule valid_position_iff)
    finally show ?thesis using that(2) by (simp add: tx_def token_text_eq [OF dv t])
  qed
  from tokE [of newest] obtain tokN where tN: "(tokN, newest) \<in> set v" by (auto simp: idsE)
  define tN where "tN = cleaned tokN"
  have txN: "tx newest = tN" by (simp add: tx_def tN_def token_text_eq [OF dv tN])
  have tNne: "tN \<noteq> []"
  proof -
    have "tokN \<noteq> []" using ne tN by force
    then have "length tN \<noteq> 0" by (simp add: tN_def length_cleaned)
    then show ?thesis by auto
  qed
  define Echunk where "Echunk = unflatten S (drop (mvp * S) (butlast (ev ! nat newest))) ! si"
  have Elen: "length Echunk = mvl"
    unfolding Echunk_def by (rule row_filled_end_lengths_length [OF rf [OF tN] sS(1)])
  have Emem: "e \<in> set Echunk \<longleftrightarrow> e \<in> set (end_overlaps_of tokN s)" if "0 < e" for e
    unfolding Echunk_def s_def
    by (rule row_filled_end_lengths [OF rf [OF tN] sS(1)]) (use bE [OF tN] that in \<open>simp_all add: s_def\<close>)
  have Eiff: "e \<in> set (end_overlaps_of tokN s) \<longleftrightarrow>
     (\<exists>p. 1 \<le> p \<and> p \<le> length tN \<and> (s = [] \<longrightarrow> p < length tN) \<and>
          e = int (min p (length s)) \<and> suffix (drop (length s - p) s) (take p tN))" for e
    unfolding end_overlaps_of_def tN_def by (rule end_overlap_iff) (simp add: length_cleaned)
  define vpl where "vpl = map vpf (rev older)"
  define lnl where "lnl = map (\<lambda>x. int (length (tx x))) (rev older)"
  define vals where "vals = concat (map (\<lambda>e. masked_cumsum e vpl lnl) Echunk)"
  have lnl': "map last (map (\<lambda>id. ev ! nat id) (rev older)) = lnl"
    unfolding lnl_def using lens by (simp add: idsE)
  have sm: "string_matches c (map (\<lambda>id. embedding_vec c ! nat id) (rev ids)) si \<longleftrightarrow>
              int L \<le> Max (set vals)"
    using si lnl'
    by (simp add: string_matches_def Let_def n tl idsE vals_def vpl_def vpf_def Echunk_def
          S_def mvp_def ev_def L_def s_def comp_def)
  have Ene: "Echunk \<noteq> []" using Elen mvel by (auto simp: mvl_def)
  have valsne: "set vals \<noteq> {}"
  proof -
    obtain e es where "Echunk = e # es" using Ene by (cases Echunk) auto
    then show ?thesis by (simp add: vals_def masked_cumsum_eq masked_from_not_Nil)
  qed
  have mx: "int L \<le> Max (set vals) \<longleftrightarrow> (\<exists>e \<in> set Echunk. \<exists>x \<in> set (masked_from (0 < e) e vpl lnl). int L \<le> x)"
    using valsne by (auto simp: Max_ge_iff vals_def masked_cumsum_eq)
  have X: "concat (rev (map tx (rev older))) = concat (map tx older)"
    by (simp add: rev_map)
  have rt: "reach (int L) (int k) vpl lnl \<longleftrightarrow> L \<le> k \<or> suffix (take (L - k) s) (concat (map tx older))"
    if "0 < k" for k
    unfolding vpl_def lnl_def L_def X [symmetric]
    by (rule reach_text [OF _ that]) (rule vps, simp_all add: idsE)
  show ?thesis
  proof (cases "L = 0")
    case True
    then have s0: "s = []" by (simp add: L_def)
    obtain e es where E: "Echunk = e # es" using Ene by (cases Echunk) auto
    have "0 \<le> hd (masked_from (0 < e) e vpl lnl)" by (rule masked_from_nonneg) auto
    moreover have "hd (masked_from (0 < e) e vpl lnl) \<in> set (masked_from (0 < e) e vpl lnl)"
      by (simp add: masked_from_not_Nil)
    ultimately have "int L \<le> Max (set vals)" unfolding mx using True E by auto
    moreover have "ends_in_last_token s (map tx older @ [tN])"
      unfolding ends_in_last_token_snoc using tNne s0
      by (intro exI [of _ 1]) (cases tN, auto)
    ultimately show ?thesis
      unfolding sm by (simp add: idsE txN s_def tx_def [symmetric])
  next
    case False
    then have Lpos: "0 < int L" "0 < L" "s \<noteq> []" by (auto simp: L_def)
    have "int L \<le> Max (set vals) \<longleftrightarrow> (\<exists>e \<in> set Echunk. 0 < e \<and> reach (int L) e vpl lnl)"
      unfolding mx using masked_from_ge [OF Lpos(1)] by simp
    also have "\<dots> \<longleftrightarrow> (\<exists>e. 0 < e \<and> e \<in> set (end_overlaps_of tokN s) \<and> reach (int L) e vpl lnl)"
      using Emem by auto
    also have "\<dots> \<longleftrightarrow> (\<exists>p. 1 \<le> p \<and> p \<le> length tN \<and> suffix (drop (L - p) s) (take p tN) \<and>
                          reach (int L) (int (min p L)) vpl lnl)"
      (is "?A \<longleftrightarrow> ?B")
    proof
      assume ?A
      then obtain e where e: "e \<in> set (end_overlaps_of tokN s)" "reach (int L) e vpl lnl" by blast
      from e(1) obtain p where "1 \<le> p" "p \<le> length tN" "e = int (min p (length s))"
          "suffix (drop (length s - p) s) (take p tN)"
        unfolding Eiff by blast
      with e(2) show ?B unfolding L_def by blast
    next
      assume ?B
      then obtain p where p: "1 \<le> p" "p \<le> length tN" "suffix (drop (L - p) s) (take p tN)"
          "reach (int L) (int (min p L)) vpl lnl"
        by blast
      have "0 < int (min p L)" using p(1) Lpos(2) by simp
      moreover have "int (min p L) \<in> set (end_overlaps_of tokN s)"
        unfolding Eiff using p(1-3) Lpos(3) unfolding L_def by blast
      ultimately show ?A using p(4) by blast
    qed
    also have "\<dots> \<longleftrightarrow> (\<exists>p. 1 \<le> p \<and> p \<le> length tN \<and> suffix (drop (L - p) s) (take p tN) \<and>
                          suffix (take (L - p) s) (concat (map tx older)))"
    proof -
      have "reach (int L) (int (min p L)) vpl lnl \<longleftrightarrow> suffix (take (L - p) s) (concat (map tx older))"
        if "1 \<le> p" for p
      proof -
        have "0 < min p L" using that Lpos(2) by simp
        from rt [OF this] show ?thesis by (cases "L \<le> p") (simp_all add: min_def)
      qed
      then show ?thesis by blast
    qed
    also have "\<dots> \<longleftrightarrow> (\<exists>p. 1 \<le> p \<and> p \<le> length tN \<and> suffix s (concat (map tx older) @ take p tN))"
    proof -
      have "suffix s (concat (map tx older) @ take p tN) \<longleftrightarrow>
              suffix (drop (L - p) s) (take p tN) \<and> suffix (take (L - p) s) (concat (map tx older))"
        if "p \<le> length tN" for p
        using suffix_append_split [of s "concat (map tx older)" "take p tN"] that
        by (simp add: L_def min_def)
      then show ?thesis by blast
    qed
    also have "\<dots> \<longleftrightarrow> ends_in_last_token s (map tx older @ [tN])"
      by (simp add: ends_in_last_token_snoc)
    finally show ?thesis
      unfolding sm by (simp add: idsE txN s_def tx_def [symmetric])
  qed
qed

lemma valid_positions_of_Nil: "valid_positions_of tok [] = []"
proof -
  have "set (valid_positions_of tok []) = {}"
    by (simp add: valid_positions_of_def token_positions_fst)
  then show ?thesis by simp
qed

lemma init_facts:
  fixes v :: "(ustr \<times> int) list"
  assumes init: "StopStringCriteria_init v arg = Inr c"
    and dv: "distinct (map snd v)"
    and rng: "\<forall>(tok, id) \<in> set v. 0 \<le> id \<and> id < int (length v)"
  shows "[] \<notin> fst ` set v"
    and "\<exists>(tok, id) \<in> set v. \<exists>s \<in> set (stop_list arg). valid_positions_of tok s \<noteq> []"
    and "\<exists>(tok, id) \<in> set v. \<exists>s \<in> set (stop_list arg). end_overlaps_of tok s \<noteq> []"
    and "num_stop_strings c = length (stop_list arg)"
    and "target_lens c = map (\<lambda>s. int (length s)) (stop_list arg)"
    and "maximum_token_len c = fold max (map length (stop_list arg)) 0"
    and "length (embedding_vec c) = length v"
    and "0 < max_valid_end_lens c"
    and "\<forall>(tok, id) \<in> set v.
        row_filled (length (stop_list arg)) (max_valid_positions c) (max_valid_end_lens c)
          (\<lambda>j. valid_positions_of tok (stop_list arg ! j)) (\<lambda>j. end_overlaps_of tok (stop_list arg ! j))
          (int (length tok)) (length (stop_list arg)) (embedding_vec c ! nat id)"
    and "\<forall>(tok, id) \<in> set v. \<forall>s \<in> set (stop_list arg).
        length (valid_positions_of tok s) \<le> max_valid_positions c \<and>
        length (end_overlaps_of tok s) \<le> max_valid_end_lens c"
proof -
  define ss where "ss = stop_list arg"
  from init obtain ev mvp mvel mtl where
    cr: "stop_string_create_embedding_vec (map fst v) (map snd v) ss = Inr (ev, mvp, mvel)"
    and mt: "py_max (map length ss) = Inr mtl"
    and c: "c = \<lparr> vocab = v, token_list = map fst v, tok_indices = map snd v, stop_strings = ss,
                  embedding_vec = ev, max_valid_positions = mvp,
                  max_valid_end_lens = mvel, maximum_token_len = mtl,
                  num_stop_strings = length ss,
                  target_lens = map (\<lambda>s. int (length s)) ss \<rparr>"
    by (auto simp: StopStringCriteria_init_def Let_def ss_def split: sum.splits prod.splits)
  have nofail: "\<not> ([] \<in> fst ` set v \<or>
         \<not> (\<exists>(tok, id) \<in> set v. \<exists>s \<in> set ss. valid_positions_of tok s \<noteq> []) \<or>
         \<not> (\<exists>(tok, id) \<in> set v. \<exists>s \<in> set ss. end_overlaps_of tok s \<noteq> []))"
    using create_embedding_vec_fails [OF dv, of ss] cr by auto
  then have ne: "[] \<notin> fst ` set v"
    and exP: "\<exists>(tok, id) \<in> set v. \<exists>s \<in> set ss. valid_positions_of tok s \<noteq> []"
    and exE: "\<exists>(tok, id) \<in> set v. \<exists>s \<in> set ss. end_overlaps_of tok s \<noteq> []"
    by blast+
  from create_embedding_vec_succeeds [OF dv rng ne exP exE] cr
  have tab: "length ev = length v" "0 < mvel"
    "\<forall>(tok, id) \<in> set v.
              row_filled (length ss) mvp mvel (\<lambda>j. valid_positions_of tok (ss ! j))
                (\<lambda>j. end_overlaps_of tok (ss ! j)) (int (length tok)) (length ss) (ev ! nat id)"
    "\<forall>(tok, id) \<in> set v. \<forall>s \<in> set ss.
              length (valid_positions_of tok s) \<le> mvp \<and> length (end_overlaps_of tok s) \<le> mvel"
    by auto
  show "[] \<notin> fst ` set v" by (rule ne)
  show "\<exists>(tok, id) \<in> set v. \<exists>s \<in> set (stop_list arg). valid_positions_of tok s \<noteq> []"
    using exP by (simp add: ss_def)
  show "\<exists>(tok, id) \<in> set v. \<exists>s \<in> set (stop_list arg). end_overlaps_of tok s \<noteq> []"
    using exE by (simp add: ss_def)
  show "num_stop_strings c = length (stop_list arg)" by (simp add: c ss_def)
  show "target_lens c = map (\<lambda>s. int (length s)) (stop_list arg)" by (simp add: c ss_def)
  show "maximum_token_len c = fold max (map length (stop_list arg)) 0"
    using mt by (auto simp: c ss_def py_max_def split: if_splits)
  show "length (embedding_vec c) = length v" using tab(1) by (simp add: c)
  show "0 < max_valid_end_lens c" using tab(2) by (simp add: c)
  show "\<forall>(tok, id) \<in> set v.
        row_filled (length (stop_list arg)) (max_valid_positions c) (max_valid_end_lens c)
          (\<lambda>j. valid_positions_of tok (stop_list arg ! j)) (\<lambda>j. end_overlaps_of tok (stop_list arg ! j))
          (int (length tok)) (length (stop_list arg)) (embedding_vec c ! nat id)"
    using tab(3) by (simp add: c ss_def)
  show "\<forall>(tok, id) \<in> set v. \<forall>s \<in> set (stop_list arg).
        length (valid_positions_of tok s) \<le> max_valid_positions c \<and>
        length (end_overlaps_of tok s) \<le> max_valid_end_lens c"
    using tab(4) by (simp add: c ss_def)
qed

lemma init_succeeds:
  fixes v :: "(ustr \<times> int) list"
  assumes dv: "distinct (map snd v)"
    and rng: "\<forall>(tok, id) \<in> set v. 0 \<le> id \<and> id < int (length v)"
    and ne: "[] \<notin> fst ` set v"
    and exP: "\<exists>(tok, id) \<in> set v. \<exists>s \<in> set (stop_list arg). valid_positions_of tok s \<noteq> []"
    and exE: "\<exists>(tok, id) \<in> set v. \<exists>s \<in> set (stop_list arg). end_overlaps_of tok s \<noteq> []"
  shows "\<exists>c. StopStringCriteria_init v arg = Inr c"
proof -
  from create_embedding_vec_succeeds [OF dv rng ne exP exE]
  obtain ev mvp mvel where
    "stop_string_create_embedding_vec (map fst v) (map snd v) (stop_list arg) = Inr (ev, mvp, mvel)"
    by blast
  moreover have "stop_list arg \<noteq> []" using exP by auto
  ultimately show ?thesis
    by (simp add: StopStringCriteria_init_def Let_def py_max_def)
qed

lemma init_fails:
  fixes v :: "(ustr \<times> int) list"
  assumes dv: "distinct (map snd v)"
    and "[] \<in> fst ` set v \<or>
         \<not> (\<exists>(tok, id) \<in> set v. \<exists>s \<in> set (stop_list arg). valid_positions_of tok s \<noteq> []) \<or>
         \<not> (\<exists>(tok, id) \<in> set v. \<exists>s \<in> set (stop_list arg). end_overlaps_of tok s \<noteq> [])"
  shows "\<exists>e. StopStringCriteria_init v arg = Inl e"
  using create_embedding_vec_fails [OF dv assms(2)]
  by (auto simp: StopStringCriteria_init_def Let_def)

lemma init_window_positive:
  fixes v :: "(ustr \<times> int) list"
  assumes "StopStringCriteria_init v arg = Inr c" "distinct (map snd v)"
    "\<forall>(tok, id) \<in> set v. 0 \<le> id \<and> id < int (length v)"
  shows "0 < maximum_token_len c" and "\<forall>s \<in> set (stop_list arg). length s \<le> maximum_token_len c"
proof -
  note f = init_facts [OF assms]
  from f(2) obtain tok s where s: "s \<in> set (stop_list arg)" "valid_positions_of tok s \<noteq> []" by auto
  then have "s \<noteq> []" using valid_positions_of_Nil by auto
  then have "0 < length s" by simp
  moreover have le: "length s' \<le> maximum_token_len c" if "s' \<in> set (stop_list arg)" for s'
    unfolding f(6) using that by (intro fold_max_ge) simp
  ultimately show "0 < maximum_token_len c" using le [OF s(1)] by linarith
  show "\<forall>s \<in> set (stop_list arg). length s \<le> maximum_token_len c" using le by blast
qed

lemma map_err_Inr:
  "(\<And>x. x \<in> set xs \<Longrightarrow> f x = Inr (g x)) \<Longrightarrow> map_err f xs = Inr (map g xs)"
  by (induction xs) simp_all

lemma length_concat_ge:
  "\<forall>t \<in> set ts. t \<noteq> [] \<Longrightarrow> length ts \<le> length (concat ts)"
proof (induction ts)
  case Nil
  show ?case by simp
next
  case (Cons t ts)
  then have "t \<noteq> []" "length ts \<le> length (concat ts)" by auto
  then show ?case by (cases t) auto
qed

lemma ends_in_last_token_drop:
  assumes ne: "\<forall>t \<in> set texts. t \<noteq> []" and s: "length s \<le> K" and K: "0 < K"
  shows "ends_in_last_token s (drop (length texts - K) texts) \<longleftrightarrow> ends_in_last_token s texts"
proof (cases "length texts \<le> K")
  case True
  then show ?thesis by simp
next
  case False
  define A where "A = take (length texts - K) texts"
  define B where "B = drop (length texts - K) texts"
  have AB: "texts = A @ B" and lB: "length B = K"
    using False by (simp_all add: A_def B_def)
  from lB K obtain B' t where B: "B = B' @ [t]"
    by (cases B rule: rev_cases) auto
  have neB: "\<forall>t \<in> set B'. t \<noteq> []" using ne AB B by auto
  have "K - 1 \<le> length (concat B')"
    using length_concat_ge [OF neB] lB B by simp
  then have long: "length s \<le> length (concat B' @ take p t)" if "1 \<le> p" "p \<le> length t" for p
    using s that by simp
  have "ends_in_last_token s ((A @ B') @ [t]) \<longleftrightarrow>
          (\<exists>p. 1 \<le> p \<and> p \<le> length t \<and> suffix s (concat A @ (concat B' @ take p t)))"
    unfolding ends_in_last_token_snoc by simp
  also have "\<dots> \<longleftrightarrow> (\<exists>p. 1 \<le> p \<and> p \<le> length t \<and> suffix s (concat B' @ take p t))"
    using suffix_append_short [OF long] by blast
  also have "\<dots> \<longleftrightarrow> ends_in_last_token s (B' @ [t])"
    unfolding ends_in_last_token_snoc by simp
  finally show ?thesis
    unfolding B_def [symmetric] by (simp add: AB B)
qed

lemma list_ex_nth: "list_ex P xs \<longleftrightarrow> list_ex (\<lambda>i. P (xs ! i)) [0..<length xs]"
proof -
  have "(\<exists>x \<in> set xs. P x) \<longleftrightarrow> (\<exists>i<length xs. P (xs ! i))"
    by (metis in_set_conv_nth)
  then show ?thesis by (simp add: list_ex_iff Bex_def)
qed

lemma call_rows:
  fixes v :: "(ustr \<times> int) list"
  assumes init: "StopStringCriteria_init v arg = Inr c"
    and dv: "distinct (map snd v)"
    and rng: "\<forall>(tok, id) \<in> set v. 0 \<le> id \<and> id < int (length v)"
    and wf: "wf_tensor t" and nc: "0 < ncols t"
    and ids: "\<forall>row \<in> set (rows t). set row \<subseteq> snd ` set v"
  shows "StopStringCriteria_call c t scores = Inr (map (row_should_stop v (stop_list arg)) (rows t))"
proof -
  define ss where "ss = stop_list arg"
  define K where "K = maximum_token_len c"
  define ev where "ev = embedding_vec c"
  define emb where "emb = (\<lambda>row. map (\<lambda>id. ev ! nat id) (rev row))"
  note f = init_facts [OF init dv rng, folded ss_def]
  note w = init_window_positive [OF init dv rng, folded ss_def K_def]
  have lrow: "length row = ncols t" if "row \<in> set (rows t)" for row
    using wf that by (auto simp: wf_tensor_def list_all_iff)
  have tr: "last_columns K row = drop (length row - K) row" for row :: "int list"
    using w(1) by (simp add: last_columns_def)
  have trne: "last_columns K row \<noteq> []" if "row \<in> set (rows t)" for row
    using lrow [OF that] nc w(1) by (simp add: tr)
  have trids: "set (last_columns K row) \<subseteq> snd ` set v" if "row \<in> set (rows t)" for row
    using ids that set_drop_subset [of "length row - K" row] unfolding tr by blast
  have em: "embedding ev x = Inr (ev ! nat x)" if "x \<in> snd ` set v" for x
    using that rng f(7) by (auto simp: embedding_def ev_def)
  have re: "row_embedded c (last_columns K row) = Inr (emb (last_columns K row))"
    if "row \<in> set (rows t)" for row
    unfolding row_embedded_def emb_def ev_def [symmetric]
    by (rule map_err_Inr) (use trids [OF that] em in auto)
  have me: "map_err (row_embedded c) (map (last_columns K) (rows t)) =
              Inr (map (\<lambda>row. emb (last_columns K row)) (rows t))"
    unfolding map_map [symmetric, of emb "last_columns K", unfolded comp_def]
    by (rule map_err_Inr) (use re in auto)
  have tne: "\<forall>x \<in> set (map (token_text v) row). x \<noteq> []" if r: "row \<in> set (rows t)" for row
  proof -
    have "token_text v i \<noteq> []" if i: "i \<in> set row" for i
    proof -
      have "i \<in> snd ` set v" using ids r i by blast
      then obtain tok where tk: "(tok, i) \<in> set v" by force
      then have "tok \<noteq> []" using f(1) by force
      then have "length (cleaned tok) \<noteq> 0" by (simp add: length_cleaned)
      then show ?thesis using token_text_eq [OF dv tk] by auto
    qed
    then show ?thesis by auto
  qed
  have stop: "row_stopped c (emb (last_columns K row)) = row_should_stop v ss row"
    if "row \<in> set (rows t)" for row
  proof -
    define row' where "row' = last_columns K row"
    have sm: "string_matches c (emb row') si \<longleftrightarrow> ends_in_last_token (ss ! si) (map (token_text v) row')"
      if "si < length ss" for si
      unfolding emb_def ev_def
      by (rule string_matches_iff [OF dv f(1) f(4) f(5) f(8) f(9) f(10) _ _ that])
         (use trne [OF \<open>row \<in> set (rows t)\<close>] trids [OF \<open>row \<in> set (rows t)\<close>] in \<open>simp_all add: row'_def\<close>)
    have "row_stopped c (emb row') \<longleftrightarrow>
            list_ex (\<lambda>si. ends_in_last_token (ss ! si) (map (token_text v) row')) [0..<length ss]"
      using sm by (auto simp: row_stopped_def f(4) list_ex_iff)
    also have "\<dots> \<longleftrightarrow> list_ex (\<lambda>s. ends_in_last_token s (map (token_text v) row')) ss"
      by (rule list_ex_nth [symmetric])
    also have "\<dots> \<longleftrightarrow> list_ex (\<lambda>s. ends_in_last_token s (map (token_text v) row)) ss"
    proof -
      have "ends_in_last_token s (map (token_text v) row') \<longleftrightarrow> ends_in_last_token s (map (token_text v) row)"
        if "s \<in> set ss" for s
        using ends_in_last_token_drop [OF tne [OF \<open>row \<in> set (rows t)\<close>] _ w(1), of s] w(2) that
        by (simp add: row'_def tr drop_map)
      then show ?thesis by (auto simp: list_ex_iff)
    qed
    finally show ?thesis by (simp add: row_should_stop_def row'_def)
  qed
  have "StopStringCriteria_call c t scores =
          Inr (map (row_stopped c) (map (\<lambda>row. emb (last_columns K row)) (rows t)))"
    using me nc w(1) f(8)
    by (simp add: StopStringCriteria_call_def trailing_columns_def Let_def K_def)
  also have "map (row_stopped c) (map (\<lambda>row. emb (last_columns K row)) (rows t)) =
               map (row_should_stop v ss) (rows t)"
    using stop by simp
  finally show ?thesis by (simp add: ss_def)
qed

lemma fold_err_Inr_length:
  assumes "\<And>x g g'. f x g = Inr g' \<Longrightarrow> length g' = length g"
    and "fold_err f xs g = Inr g'"
  shows "length g' = length (g :: 'a list)"
  using assms(2)
proof (induction xs arbitrary: g)
  case Nil
  then show ?case by simp
next
  case (Cons x xs)
  from Cons.prems obtain g1 where g1: "f x g = Inr g1" "fold_err f xs g1 = Inr g'"
    by (auto split: sum.splits)
  have "length g' = length g1" by (rule Cons.IH [OF g1(2)])
  then show ?case using assms(1) [OF g1(1)] by simp
qed

lemma set_slice_length: "set_slice g k a x = Inr g' \<Longrightarrow> length g' = length g"
  by (auto simp: set_slice_def Let_def split: sum.splits if_splits)

lemma set_last_Inr:
  "set_last g k x = Inr g' \<Longrightarrow> length g' = length g \<and> k < int (length g)"
  by (auto simp: set_last_def np_row_def Let_def split: sum.splits if_splits)

lemma fold_err_set_last_range:
  "fold_err (\<lambda>(token, idx) g. set_last g idx (int (length token))) kvs g = Inr g' \<Longrightarrow>
   \<forall>(tok, k) \<in> set kvs. k < int (length g)"
proof (induction kvs arbitrary: g)
  case Nil
  show ?case by simp
next
  case (Cons e kvs)
  obtain tok k where e: "e = (tok, k)" by (cases e)
  from Cons.prems obtain g1 where g1: "set_last g k (int (length tok)) = Inr g1"
      "fold_err (\<lambda>(token, idx) g. set_last g idx (int (length token))) kvs g1 = Inr g'"
    by (auto simp: e split: sum.splits)
  from set_last_Inr [OF g1(1)] have l: "length g1 = length g" "k < int (length g)" by auto
  from Cons.IH [OF g1(2)] show ?case using l by (auto simp: e)
qed

lemma create_embedding_vec_Inr_range:
  assumes "stop_string_create_embedding_vec (map fst v) (map snd v) ss = Inr r"
  shows "\<forall>(tok, k) \<in> set v. k < int (length v)"
proof -
  from assms obtain tvp teo mvp mvel gv where
    gmp: "stop_string_get_matching_positions (map fst v) (map snd v) ss = Inr (tvp, teo)"
    and mp: "py_max (concat (map (\<lambda>(s, positions). map (\<lambda>(k, val). length val) positions) tvp)) = Inr mvp"
    and fe: "fold_err (fill_stop_string (map fst v) (map snd v) (length ss) mvp mvel tvp teo)
               (enumerate 0 ss)
               (replicate (length v) (replicate (length ss * (mvp + mvel) + 1) (- 1))) = Inr gv"
    by (auto simp: stop_string_create_embedding_vec_def Let_def split: sum.splits prod.splits)
  have "ss \<noteq> []"
  proof
    assume "ss = []"
    then have "tvp = []" using gmp
      by (auto simp: stop_string_get_matching_positions_def split: sum.splits)
    then show False using mp by (simp add: py_max_def)
  qed
  then obtain s0 rest where ss: "ss = s0 # rest" by (cases ss) auto
  define g0 where "g0 = replicate (length v) (replicate (length ss * (mvp + mvel) + 1) (- 1 :: int))"
  from fe obtain g1 where
    "fill_stop_string (map fst v) (map snd v) (length ss) mvp mvel tvp teo (0, s0) g0 = Inr g1"
    unfolding g0_def [symmetric] by (auto simp: ss split: sum.splits)
  then obtain ga gb where
    a: "fold_err (\<lambda>(token_idx, valid_positions) g. set_slice g token_idx (mvp * 0) valid_positions)
          (dict_get tvp s0) g0 = Inr ga"
    and b: "fold_err (\<lambda>(token_idx, possible_end_lens) g.
              set_slice g token_idx (mvp * length ss + mvel * 0) possible_end_lens)
          (dict_get teo s0) ga = Inr gb"
    and c: "fold_err (\<lambda>(token, token_idx) g. set_last g token_idx (int (length token)))
          (zip (map fst v) (map snd v)) gb = Inr g1"
    by (auto simp: fill_stop_string_def split: sum.splits)
  have "length ga = length g0"
    by (rule fold_err_Inr_length [OF _ a]) (auto dest: set_slice_length)
  moreover have "length gb = length ga"
    by (rule fold_err_Inr_length [OF _ b]) (auto dest: set_slice_length)
  ultimately have "length gb = length v" by (simp add: g0_def)
  with fold_err_set_last_range [OF c] show ?thesis by (simp add: zip_map_fst_snd)
qed

lemma init_ids_below_length:
  assumes "StopStringCriteria_init v arg = Inr c"
  shows "\<forall>(tok, k) \<in> set v. k < int (length v)"
proof -
  from assms obtain r where
    "stop_string_create_embedding_vec (map fst v) (map snd v) (stop_list arg) = Inr r"
    by (auto simp: StopStringCriteria_init_def Let_def split: sum.splits)
  then show ?thesis by (rule create_embedding_vec_Inr_range)
qed

lemma fold_dict_fill_Nil:
  "\<forall>e \<in> set zs. f e = [] \<Longrightarrow>
   fold (\<lambda>e d. if f e \<noteq> [] then AList.update (key e) (f e) d else d) zs d = d"
  by (induction zs arbitrary: d) simp_all

lemma create_embedding_vec_no_positions:
  fixes v :: "(ustr \<times> int) list"
  assumes "\<forall>s \<in> set ss. \<forall>tok \<in> fst ` set v. valid_positions_of tok s = []"
  shows "stop_string_create_embedding_vec (map fst v) (map snd v) ss =
           Inl (if [] \<in> fst ` set v then IndexError else ValueError)"
proof (cases "[] \<in> fst ` set v")
  case True
  then show ?thesis
    by (simp add: stop_string_create_embedding_vec_def get_matching_positions_eq)
next
  case False
  define H where "H = stop_string_positions (map fst v) (map rev (map cleaned (map fst v))) (map snd v)"
  define D where "D = fold (\<lambda>s acc. (let r = H s in (AList.update s (fst r) (fst acc), AList.update s (snd r) (snd acc)))) ss ([], [])"
  have gmp: "stop_string_get_matching_positions (map fst v) (map snd v) ss = Inr (fst D, snd D)"
    using False by (simp add: get_matching_positions_eq D_def H_def)
  have H0: "fst (H s) = []" if "s \<in> set ss" for s
  proof -
    have "fst (H s) = fold (\<lambda>e d. if fst (token_positions (fst e) (fst (snd e)) s) \<noteq> []
                  then AList.update (snd (snd e)) (fst (token_positions (fst e) (fst (snd e)) s)) d
                  else d) (map (\<lambda>e. (fst e, rev (cleaned (fst e)), snd e)) v) []"
      unfolding H_def stop_string_positions_def zip_vocab fst_fold_token_step by simp
    also have "\<dots> = []"
      by (rule fold_dict_fill_Nil) (use assms that in \<open>auto simp: valid_positions_of_def\<close>)
    finally show ?thesis .
  qed
  have "(\<forall>(k, d) \<in> set (fst D). d = []) \<and> (\<forall>(k, d) \<in> set (snd D). True)"
    unfolding D_def
    by (rule strdict_entries [where ?Q1.0 = "\<lambda>d. d = []" and ?Q2.0 = "\<lambda>d. True"])
       (use H0 in auto)
  then have "concat (map (\<lambda>(s, positions). map (\<lambda>(k, val). length val) positions) (fst D)) = []"
    by auto
  then show ?thesis
    using gmp False
    by (cases D) (auto simp: stop_string_create_embedding_vec_def py_max_def Let_def)
qed

lemma init_no_positions:
  fixes v :: "(ustr \<times> int) list"
  assumes "\<forall>s \<in> set (stop_list arg). \<forall>tok \<in> fst ` set v. valid_positions_of tok s = []"
  shows "StopStringCriteria_init v arg = Inl (if [] \<in> fst ` set v then IndexError else ValueError)"
  using create_embedding_vec_no_positions [OF assms]
  by (simp add: StopStringCriteria_init_def Let_def)

lemma init_some_stop_string_nonempty:
  assumes "StopStringCriteria_init v arg = Inr c"
  shows "\<exists>s \<in> set (stop_list arg). s \<noteq> []"
proof (rule ccontr)
  assume "\<not> (\<exists>s \<in> set (stop_list arg). s \<noteq> [])"
  then have "\<forall>s \<in> set (stop_list arg). \<forall>tok \<in> fst ` set v. valid_positions_of tok s = []"
    using valid_positions_of_Nil by auto
  from init_no_positions [OF this] assms show False by auto
qed


section \<open>The example configurations, evaluated\<close>

text \<open>
  Each table is computed in stages: the positions of every token, the dictionaries of one
  stop string, the dictionaries of all stop strings, the packed table.
\<close>

lemma small_tp_0_0:
  "token_positions [115, 116] [116, 115] [115, 116, 111, 112] = ([2], [])"
  by (simp add: token_positions_def position_step_def upto_rec1)

lemma small_tp_1_0:
  "token_positions [111, 112] [112, 111] [115, 116, 111, 112] = ([], [2])"
  by (simp add: token_positions_def position_step_def upto_rec1)

lemma small_ssp_0:
  "stop_string_positions [[115, 116], [111, 112]]
     [[116, 115], [112, 111]]
     [0, 1] [115, 116, 111, 112] =
   ([(0, [2])], [(1, [2])])"
  by (simp add: stop_string_positions_def token_step_def small_tp_0_0 small_tp_1_0)

lemma small_gmp:
  "stop_string_get_matching_positions [[115, 116], [111, 112]]
     [0, 1] [[115, 116, 111, 112]] =
   Inr ([([115, 116, 111, 112], [(0, [2])])],
        [([115, 116, 111, 112], [(1, [2])])])"
  by (simp add: stop_string_get_matching_positions_def cleanup_token_def small_ssp_0)

lemma small_cev:
  "stop_string_create_embedding_vec [[115, 116], [111, 112]]
     [0, 1] [[115, 116, 111, 112]] =
   Inr ([[2, - 1, 2], [- 1, 2, 2]], 1, 1)"
  by (simp add: stop_string_create_embedding_vec_def small_gmp py_max_def fill_stop_string_def
      set_slice_def set_last_def np_row_def dict_get_def enumerate_eq_zip Let_def)













lemma banana_tp_0_0:
  "token_positions [98, 97] [97, 98] [98, 97, 110, 97, 110, 97] = ([4], [])"
  by (simp add: token_positions_def position_step_def upto_rec1)

lemma banana_tp_1_0:
  "token_positions [98, 97, 110, 97] [97, 110, 97, 98] [98, 97, 110, 97, 110, 97] = ([2], [])"
  by (simp add: token_positions_def position_step_def upto_rec1)

lemma banana_tp_2_0:
  "token_positions [110, 97, 110, 97] [97, 110, 97, 110] [98, 97, 110, 97, 110, 97] = ([], [2, 4])"
  by (simp add: token_positions_def position_step_def upto_rec1)

lemma banana_ssp_0:
  "stop_string_positions [[98, 97], [98, 97, 110, 97], [110, 97, 110, 97]]
     [[97, 98], [97, 110, 97, 98], [97, 110, 97, 110]]
     [0, 1, 2] [98, 97, 110, 97, 110, 97] =
   ([(0, [4]), (1, [2])], [(2, [2, 4])])"
  by (simp add: stop_string_positions_def token_step_def banana_tp_0_0 banana_tp_1_0 banana_tp_2_0)

lemma banana_gmp:
  "stop_string_get_matching_positions [[98, 97], [98, 97, 110, 97], [110, 97, 110, 97]]
     [0, 1, 2] [[98, 97, 110, 97, 110, 97]] =
   Inr ([([98, 97, 110, 97, 110, 97], [(0, [4]), (1, [2])])],
        [([98, 97, 110, 97, 110, 97], [(2, [2, 4])])])"
  by (simp add: stop_string_get_matching_positions_def cleanup_token_def banana_ssp_0)

lemma banana_cev:
  "stop_string_create_embedding_vec [[98, 97], [98, 97, 110, 97], [110, 97, 110, 97]]
     [0, 1, 2] [[98, 97, 110, 97, 110, 97]] =
   Inr ([[4, - 1, - 1, 2], [2, - 1, - 1, 4], [- 1, 2, 4, 4]], 1, 2)"
  by (simp add: stop_string_create_embedding_vec_def banana_gmp py_max_def fill_stop_string_def
      set_slice_def set_last_def np_row_def dict_get_def enumerate_eq_zip Let_def)

lemma literal_tp_0_0:
  "token_positions [115, 116] [116, 115] [115, 116, 111, 112] = ([2], [])"
  by (simp add: token_positions_def position_step_def upto_rec1)

lemma literal_tp_1_0:
  "token_positions [111, 112] [112, 111] [115, 116, 111, 112] = ([], [2])"
  by (simp add: token_positions_def position_step_def upto_rec1)

lemma literal_tp_2_0:
  "token_positions [115, 116, 111, 112] [112, 111, 116, 115] [115, 116, 111, 112] = ([], [4])"
  by (simp add: token_positions_def position_step_def upto_rec1)

lemma literal_tp_3_0:
  "token_positions [111, 112, 101, 114, 97] [97, 114, 101, 112, 111] [115, 116, 111, 112] = ([], [2])"
  by (simp add: token_positions_def position_step_def upto_rec1)

lemma literal_tp_4_0:
  "token_positions [115, 116, 111] [111, 116, 115] [115, 116, 111, 112] = ([1], [])"
  by (simp add: token_positions_def position_step_def upto_rec1)

lemma literal_tp_5_0:
  "token_positions [112, 112, 101, 114] [114, 101, 112, 112] [115, 116, 111, 112] = ([], [1])"
  by (simp add: token_positions_def position_step_def upto_rec1)

lemma literal_tp_6_0:
  "token_positions [108, 97, 115] [115, 97, 108] [115, 116, 111, 112] = ([3], [])"
  by (simp add: token_positions_def position_step_def upto_rec1)

lemma literal_tp_7_0:
  "token_positions [116, 111, 112, 112, 101, 114] [114, 101, 112, 112, 111, 116] [115, 116, 111, 112] = ([], [3])"
  by (simp add: token_positions_def position_step_def upto_rec1)

lemma literal_tp_8_0:
  "token_positions [97, 116] [116, 97] [115, 116, 111, 112] = ([], [])"
  by (simp add: token_positions_def position_step_def upto_rec1)

lemma literal_tp_9_0:
  "token_positions [116, 105, 111, 110] [110, 111, 105, 116] [115, 116, 111, 112] = ([], [])"
  by (simp add: token_positions_def position_step_def upto_rec1)

lemma literal_ssp_0:
  "stop_string_positions [[115, 116], [111, 112], [115, 116, 111, 112], [111, 112, 101, 114, 97], [115, 116, 111], [112, 112, 101, 114], [108, 97, 115], [116, 111, 112, 112, 101, 114], [97, 116], [116, 105, 111, 110]]
     [[116, 115], [112, 111], [112, 111, 116, 115], [97, 114, 101, 112, 111], [111, 116, 115], [114, 101, 112, 112], [115, 97, 108], [114, 101, 112, 112, 111, 116], [116, 97], [110, 111, 105, 116]]
     [1, 2, 3, 4, 5, 6, 7, 8, 9, 10] [115, 116, 111, 112] =
   ([(1, [2]), (5, [1]), (7, [3])], [(2, [2]), (3, [4]), (4, [2]), (6, [1]), (8, [3])])"
  by (simp add: stop_string_positions_def token_step_def literal_tp_0_0 literal_tp_1_0 literal_tp_2_0 literal_tp_3_0 literal_tp_4_0 literal_tp_5_0 literal_tp_6_0 literal_tp_7_0 literal_tp_8_0 literal_tp_9_0)

lemma literal_gmp:
  "stop_string_get_matching_positions [[115, 116], [111, 112], [115, 116, 111, 112], [111, 112, 101, 114, 97], [115, 116, 111], [112, 112, 101, 114], [108, 97, 115], [116, 111, 112, 112, 101, 114], [97, 116], [116, 105, 111, 110]]
     [1, 2, 3, 4, 5, 6, 7, 8, 9, 10] [[115, 116, 111, 112]] =
   Inr ([([115, 116, 111, 112], [(1, [2]), (5, [1]), (7, [3])])],
        [([115, 116, 111, 112], [(2, [2]), (3, [4]), (4, [2]), (6, [1]), (8, [3])])])"
  by (simp add: stop_string_get_matching_positions_def cleanup_token_def literal_ssp_0)

lemma literal_cev:
  "stop_string_create_embedding_vec [[115, 116], [111, 112], [115, 116, 111, 112], [111, 112, 101, 114, 97], [115, 116, 111], [112, 112, 101, 114], [108, 97, 115], [116, 111, 112, 112, 101, 114], [97, 116], [116, 105, 111, 110]]
     [1, 2, 3, 4, 5, 6, 7, 8, 9, 10] [[115, 116, 111, 112]] =
   Inl IndexError"
  by (simp add: stop_string_create_embedding_vec_def literal_gmp py_max_def fill_stop_string_def
      set_slice_def set_last_def np_row_def dict_get_def enumerate_eq_zip Let_def)

lemma dense_tp_0_0:
  "token_positions [115, 116] [116, 115] [115, 116, 111, 112] = ([2], [])"
  by (simp add: token_positions_def position_step_def upto_rec1)

lemma dense_tp_1_0:
  "token_positions [111, 112] [112, 111] [115, 116, 111, 112] = ([], [2])"
  by (simp add: token_positions_def position_step_def upto_rec1)

lemma dense_tp_2_0:
  "token_positions [115, 116, 111, 112] [112, 111, 116, 115] [115, 116, 111, 112] = ([], [4])"
  by (simp add: token_positions_def position_step_def upto_rec1)

lemma dense_tp_3_0:
  "token_positions [111, 112, 101, 114, 97] [97, 114, 101, 112, 111] [115, 116, 111, 112] = ([], [2])"
  by (simp add: token_positions_def position_step_def upto_rec1)

lemma dense_tp_4_0:
  "token_positions [115, 116, 111] [111, 116, 115] [115, 116, 111, 112] = ([1], [])"
  by (simp add: token_positions_def position_step_def upto_rec1)

lemma dense_tp_5_0:
  "token_positions [112, 112, 101, 114] [114, 101, 112, 112] [115, 116, 111, 112] = ([], [1])"
  by (simp add: token_positions_def position_step_def upto_rec1)

lemma dense_tp_6_0:
  "token_positions [108, 97, 115] [115, 97, 108] [115, 116, 111, 112] = ([3], [])"
  by (simp add: token_positions_def position_step_def upto_rec1)

lemma dense_tp_7_0:
  "token_positions [116, 111, 112, 112, 101, 114] [114, 101, 112, 112, 111, 116] [115, 116, 111, 112] = ([], [3])"
  by (simp add: token_positions_def position_step_def upto_rec1)

lemma dense_tp_8_0:
  "token_positions [97, 116] [116, 97] [115, 116, 111, 112] = ([], [])"
  by (simp add: token_positions_def position_step_def upto_rec1)

lemma dense_tp_9_0:
  "token_positions [116, 105, 111, 110] [110, 111, 105, 116] [115, 116, 111, 112] = ([], [])"
  by (simp add: token_positions_def position_step_def upto_rec1)

lemma dense_ssp_0:
  "stop_string_positions [[115, 116], [111, 112], [115, 116, 111, 112], [111, 112, 101, 114, 97], [115, 116, 111], [112, 112, 101, 114], [108, 97, 115], [116, 111, 112, 112, 101, 114], [97, 116], [116, 105, 111, 110]]
     [[116, 115], [112, 111], [112, 111, 116, 115], [97, 114, 101, 112, 111], [111, 116, 115], [114, 101, 112, 112], [115, 97, 108], [114, 101, 112, 112, 111, 116], [116, 97], [110, 111, 105, 116]]
     [0, 1, 2, 3, 4, 5, 6, 7, 8, 9] [115, 116, 111, 112] =
   ([(0, [2]), (4, [1]), (6, [3])], [(1, [2]), (2, [4]), (3, [2]), (5, [1]), (7, [3])])"
  by (simp add: stop_string_positions_def token_step_def dense_tp_0_0 dense_tp_1_0 dense_tp_2_0 dense_tp_3_0 dense_tp_4_0 dense_tp_5_0 dense_tp_6_0 dense_tp_7_0 dense_tp_8_0 dense_tp_9_0)

lemma dense_gmp:
  "stop_string_get_matching_positions [[115, 116], [111, 112], [115, 116, 111, 112], [111, 112, 101, 114, 97], [115, 116, 111], [112, 112, 101, 114], [108, 97, 115], [116, 111, 112, 112, 101, 114], [97, 116], [116, 105, 111, 110]]
     [0, 1, 2, 3, 4, 5, 6, 7, 8, 9] [[115, 116, 111, 112]] =
   Inr ([([115, 116, 111, 112], [(0, [2]), (4, [1]), (6, [3])])],
        [([115, 116, 111, 112], [(1, [2]), (2, [4]), (3, [2]), (5, [1]), (7, [3])])])"
  by (simp add: stop_string_get_matching_positions_def cleanup_token_def dense_ssp_0)

lemma dense_cev:
  "stop_string_create_embedding_vec [[115, 116], [111, 112], [115, 116, 111, 112], [111, 112, 101, 114, 97], [115, 116, 111], [112, 112, 101, 114], [108, 97, 115], [116, 111, 112, 112, 101, 114], [97, 116], [116, 105, 111, 110]]
     [0, 1, 2, 3, 4, 5, 6, 7, 8, 9] [[115, 116, 111, 112]] =
   Inr ([[2, - 1, 2], [- 1, 2, 2], [- 1, 4, 4], [- 1, 2, 5], [1, - 1, 3], [- 1, 1, 4], [3, - 1, 3], [- 1, 3, 6], [- 1, - 1, 2], [- 1, - 1, 4]], 1, 1)"
  by (simp add: stop_string_create_embedding_vec_def dense_gmp py_max_def fill_stop_string_def
      set_slice_def set_last_def np_row_def dict_get_def enumerate_eq_zip Let_def)


lemma sparse_ssp_0:
  "stop_string_positions [[98, 97], [98, 97, 110, 97], [110, 97, 110, 97]]
     [[97, 98], [97, 110, 97, 98], [97, 110, 97, 110]]
     [1, 2, 3] [98, 97, 110, 97, 110, 97] =
   ([(1, [4]), (2, [2])], [(3, [2, 4])])"
  by (simp add: stop_string_positions_def token_step_def banana_tp_0_0 banana_tp_1_0 banana_tp_2_0)

lemma sparse_gmp:
  "stop_string_get_matching_positions [[98, 97], [98, 97, 110, 97], [110, 97, 110, 97]]
     [1, 2, 3] [[98, 97, 110, 97, 110, 97]] =
   Inr ([([98, 97, 110, 97, 110, 97], [(1, [4]), (2, [2])])],
        [([98, 97, 110, 97, 110, 97], [(3, [2, 4])])])"
  by (simp add: stop_string_get_matching_positions_def cleanup_token_def sparse_ssp_0)

lemma sparse_cev:
  "stop_string_create_embedding_vec [[98, 97], [98, 97, 110, 97], [110, 97, 110, 97]]
     [1, 2, 3] [[98, 97, 110, 97, 110, 97]] =
   Inl IndexError"
  by (simp add: stop_string_create_embedding_vec_def sparse_gmp py_max_def fill_stop_string_def
      set_slice_def set_last_def np_row_def dict_get_def enumerate_eq_zip Let_def)



lemmas init_defs = StopStringCriteria_init_def stop_list_def ascii_def py_max_def

lemma small_init: "StopStringCriteria_init small_vocab (Str (ascii ''stop'')) = Inr small_crit"
  by (simp add: init_defs small_vocab_def small_crit_def small_cev)

lemma dense_init: "StopStringCriteria_init dense_vocab (Str (ascii ''stop'')) = Inr dense_crit"
  by (simp add: init_defs dense_vocab_def dense_crit_def dense_cev)

lemma banana_init: "StopStringCriteria_init banana_vocab (Str (ascii ''banana'')) = Inr banana_crit"
  by (simp add: init_defs banana_vocab_def banana_crit_def banana_cev)

lemma literal_init: "StopStringCriteria_init literal_vocab (Str (ascii ''stop'')) = Inl IndexError"
  by (simp add: init_defs literal_vocab_def literal_cev)

lemma evaluate_init: "StopStringCriteria_init v arg = Inr c \<Longrightarrow> evaluate v arg t = StopStringCriteria_call c t ()"
  by (simp add: evaluate_def)

lemmas call_defs = StopStringCriteria_call_def trailing_columns_def last_columns_def
  row_embedded_def embedding_def row_stopped_def string_matches_def unflatten_def
  masked_cumsum_def cumsum_def one_row_def

lemma dense_calls:
  "StopStringCriteria_call dense_crit (one_row [0, 1]) () = Inr [True]"
  "StopStringCriteria_call dense_crit (one_row [2]) () = Inr [True]"
  "StopStringCriteria_call dense_crit (one_row [0, 3]) () = Inr [True]"
  "StopStringCriteria_call dense_crit (one_row [4, 5]) () = Inr [True]"
  "StopStringCriteria_call dense_crit (one_row [6, 7]) () = Inr [True]"
  "StopStringCriteria_call dense_crit (one_row [2, 8]) () = Inr [False]"
  "StopStringCriteria_call dense_crit (one_row [0, 1, 8]) () = Inr [False]"
  "StopStringCriteria_call dense_crit (one_row [0, 3, 9]) () = Inr [False]"
  by (simp_all add: call_defs dense_crit_def)

lemma banana_calls:
  "StopStringCriteria_call banana_crit (one_row [0, 2]) () = Inr [True]"
  "StopStringCriteria_call banana_crit (one_row [1, 2]) () = Inr [True]"
  by (simp_all add: call_defs banana_crit_def)


lemma evaluate_dense:
  "evaluate dense_vocab (Str (ascii ''stop'')) t = StopStringCriteria_call dense_crit t ()"
  by (rule evaluate_init [OF dense_init])

lemma evaluate_small:
  "evaluate small_vocab (Str (ascii ''stop'')) t = StopStringCriteria_call small_crit t ()"
  by (rule evaluate_init [OF small_init])

lemma evaluate_banana:
  "evaluate banana_vocab (Str (ascii ''banana'')) t = StopStringCriteria_call banana_crit t ()"
  by (rule evaluate_init [OF banana_init])

lemma rows_one_row [simp]: "rows (one_row ids) = [ids]"
  by (simp add: one_row_def)

lemma ncols_one_row [simp]: "ncols (one_row ids) = length ids"
  by (simp add: one_row_def)

lemma small_call_st_op: "StopStringCriteria_call small_crit (one_row [0, 1]) () = Inr [True]"
  by (simp add: call_defs small_crit_def)


section \<open>The literal scenario\<close>

text \<open>
  With the tokens of the literal scenario numbered from 0, the eight sequences evaluate as
  the scenario lists them.
\<close>

lemma dense_scenario_results:
  "map (\<lambda>r. evaluate dense_vocab (Str (ascii ''stop'')) (one_row r))
     [[0, 1], [2], [0, 3], [4, 5], [6, 7], [2, 8], [0, 1, 8], [0, 3, 9]] =
   [Inr [True], Inr [True], Inr [True], Inr [True], Inr [True],
    Inr [False], Inr [False], Inr [False]]"
  by (simp only: evaluate_dense dense_calls list.map)

text \<open>
  Claim C2 (the literal scenario: construction succeeds for the vocabulary numbered 1 to 10
  and the eight sequences evaluate as listed).  On the code, construction raises: the table
  has one row per token, ten rows numbered 0 to 9, and the row of the token with id 10 is
  written by \<open>gather_vec[token_idx, -1] = len(token)\<close>.  No sequence is ever evaluated.
\<close>

theorem literal_scenario_construction_raises:
  "StopStringCriteria_init literal_vocab (Str (ascii ''stop'')) = Inl IndexError"
  by (simp add: init_defs literal_vocab_def literal_cev)


section \<open>Several overlap lengths of one token\<close>

text \<open>
  For the vocabulary of the tokens \<open>ba\<close>, \<open>bana\<close>, \<open>nana\<close> with the ids 0, 1, 2 and the
  stop string \<open>banana\<close>, the precomputation stores both end overlaps 2 and 4 of \<open>nana\<close>,
  the table row of \<open>nana\<close> holds both, and both \<open>[ba, nana]\<close> and \<open>[bana, nana]\<close> evaluate
  to true.
\<close>

lemma banana_dense_ids_both_alignments_match:
  "snd (token_positions (ascii ''nana'') (rev (ascii ''nana'')) (ascii ''banana'')) = [2, 4]
   \<and> stop_string_create_embedding_vec (map fst banana_vocab) (map snd banana_vocab)
         [ascii ''banana''] =
       Inr ([[4, - 1, - 1, 2], [2, - 1, - 1, 4], [- 1, 2, 4, 4]], 1, 2)
   \<and> evaluate banana_vocab (Str (ascii ''banana'')) (one_row [0, 2]) = Inr [True]
   \<and> evaluate banana_vocab (Str (ascii ''banana'')) (one_row [1, 2]) = Inr [True]"
proof -
  have "snd (token_positions (ascii ''nana'') (rev (ascii ''nana'')) (ascii ''banana'')) = [2, 4]"
    by (simp add: ascii_def banana_tp_2_0)
  moreover have "stop_string_create_embedding_vec (map fst banana_vocab) (map snd banana_vocab)
         [ascii ''banana''] =
       Inr ([[4, - 1, - 1, 2], [2, - 1, - 1, 4], [- 1, 2, 4, 4]], 1, 2)"
    by (simp add: banana_vocab_def ascii_def banana_cev)
  moreover have "evaluate banana_vocab (Str (ascii ''banana'')) (one_row [0, 2]) = Inr [True]"
    by (simp only: evaluate_banana banana_calls)
  moreover have "evaluate banana_vocab (Str (ascii ''banana'')) (one_row [1, 2]) = Inr [True]"
    by (simp only: evaluate_banana banana_calls)
  ultimately show ?thesis by blast
qed

text \<open>
  The same holds in every vocabulary without an empty token whose ids are distinct and
  number the tokens from 0, wherever the three tokens stand in it; \<open>[nana, ba]\<close> and
  \<open>[nana, nana]\<close> are not stopped.
\<close>

lemma banana_any_dense_vocabulary:
  assumes dv: "distinct (map snd v)"
    and rng: "\<forall>k \<in> snd ` set v. 0 \<le> k \<and> k < int (length v)"
    and ne: "[] \<notin> fst ` set v"
    and ba: "(ascii ''ba'', a) \<in> set v"
    and bana: "(ascii ''bana'', b) \<in> set v"
    and nana: "(ascii ''nana'', n) \<in> set v"
  shows "\<exists>c. StopStringCriteria_init v (Str (ascii ''banana'')) = Inr c \<and>
             StopStringCriteria_call c (one_row [a, n]) () = Inr [True] \<and>
             StopStringCriteria_call c (one_row [b, n]) () = Inr [True] \<and>
             StopStringCriteria_call c (one_row [n, a]) () = Inr [False] \<and>
             StopStringCriteria_call c (one_row [n, n]) () = Inr [False]"
proof -
  have rng': "\<forall>(tok, k) \<in> set v. 0 \<le> k \<and> k < int (length v)" using rng by force
  have "valid_positions_of (ascii ''ba'') (ascii ''banana'') \<noteq> []"
    by (simp add: valid_positions_of_def ascii_def cleaned_def cleanup_token_def banana_tp_0_0)
  then have exP: "\<exists>(tok, k) \<in> set v. \<exists>s \<in> set (stop_list (Str (ascii ''banana''))). valid_positions_of tok s \<noteq> []"
    using ba by (force simp: stop_list_def)
  have "end_overlaps_of (ascii ''nana'') (ascii ''banana'') \<noteq> []"
    by (simp add: end_overlaps_of_def ascii_def cleaned_def cleanup_token_def banana_tp_2_0)
  then have exE: "\<exists>(tok, k) \<in> set v. \<exists>s \<in> set (stop_list (Str (ascii ''banana''))). end_overlaps_of tok s \<noteq> []"
    using nana by (force simp: stop_list_def)
  from init_succeeds [OF dv rng' ne exP exE]
  obtain c where c: "StopStringCriteria_init v (Str (ascii ''banana'')) = Inr c" by blast
  have tt: "token_text v a = ascii ''ba''" "token_text v b = ascii ''bana''" "token_text v n = ascii ''nana''"
    using token_text_eq [OF dv ba] token_text_eq [OF dv bana] token_text_eq [OF dv nana]
    by (simp_all add: ascii_def cleaned_def cleanup_token_def)
  have call: "StopStringCriteria_call c (one_row [x, y]) () =
                Inr [row_should_stop v [ascii ''banana''] [x, y]]"
    if "x \<in> snd ` set v" "y \<in> snd ` set v" for x y
    using call_rows [OF c dv rng', of "one_row [x, y]" "()"] that
    by (simp add: wf_tensor_def stop_list_def)
  have mem: "a \<in> snd ` set v" "b \<in> snd ` set v" "n \<in> snd ` set v"
    using ba bana nana by force+
  have "row_should_stop v [ascii ''banana''] [a, n]" "row_should_stop v [ascii ''banana''] [b, n]"
    "\<not> row_should_stop v [ascii ''banana''] [n, a]" "\<not> row_should_stop v [ascii ''banana''] [n, n]"
    by (simp_all add: row_should_stop_def ends_in_last_token_def tt ascii_def suffix_to_prefix)
  then show ?thesis using c call mem by simp
qed

text \<open>
  Claim C3 (for a vocabulary containing the tokens \<open>ba\<close>, \<open>bana\<close> and \<open>nana\<close>, both
  \<open>[ba, nana]\<close> and \<open>[bana, nana]\<close> evaluate to true for the stop string \<open>banana\<close>).  On
  the code, the vocabulary of exactly these tokens with the ids 1, 2, 3 cannot be
  constructed: the table has three rows, numbered 0 to 2, and the end overlaps of \<open>nana\<close>
  are written to the row of its id 3.  No sequence is ever evaluated.
\<close>

theorem banana_sparse_ids_construction_raises:
  "StopStringCriteria_init banana_sparse_vocab (Str (ascii ''banana'')) = Inl IndexError"
  by (simp add: init_defs banana_sparse_vocab_def sparse_cev)


section \<open>Token normalization\<close>

lemma cleanup_token_Cons:
  "cleanup_token (c # rest) = Inr ((if c = 9601 \<or> c = 288 then 32 else c) # rest)"
  by (simp add: cleanup_token_def)

text \<open>
  Claim C5 (a leading word-start marker becomes a space, a leading \<open>##\<close> is stripped, every
  other token is unchanged).  The first and the last part hold (\<open>cleanup_token_Cons\<close>); a
  token that begins with \<open>##\<close> is returned unchanged, since the test compares the first
  character alone with the two-character marker.
\<close>

theorem cleanup_token_keeps_continuation_marker:
  "cleanup_token (ascii ''##ing'') = Inr (ascii ''##ing'')"
  by (simp add: cleanup_token_def ascii_def)


section \<open>An input without columns\<close>

lemma map_err_all_Inr:
  "(\<And>x. x \<in> set xs \<Longrightarrow> f x = Inr (g x)) \<Longrightarrow> map_err f xs = Inr (map g xs)"
  by (induction xs) simp_all

lemma call_without_columns:
  assumes "ncols t = 0" and "wf_tensor t"
  shows "StopStringCriteria_call c t scores = Inl IndexError"
proof -
  have empty: "\<And>r. r \<in> set (rows t) \<Longrightarrow> r = []"
    using assms by (auto simp: wf_tensor_def list_all_iff)
  have "\<And>r. r \<in> set (rows t) \<Longrightarrow>
               row_embedded c (last_columns (maximum_token_len c) r) = Inr []"
  proof -
    fix r assume "r \<in> set (rows t)"
    then have "r = []" by (rule empty)
    then show "row_embedded c (last_columns (maximum_token_len c) r) = Inr []"
      by (simp add: row_embedded_def last_columns_def)
  qed
  then have "map_err (row_embedded c) (map (last_columns (maximum_token_len c)) (rows t)) =
             Inr (map (\<lambda>r. []) (map (last_columns (maximum_token_len c)) (rows t)))"
    by (intro map_err_all_Inr) auto
  then show ?thesis
    using assms by (simp add: StopStringCriteria_call_def trailing_columns_def)
qed

text \<open>
  Claim C8 (an input with zero columns yields false for every row).  On the code the call
  raises instead: the maximum over the token axis is taken over an empty dimension.
\<close>

theorem call_without_columns_raises:
  "evaluate small_vocab (Str (ascii ''stop'')) \<lparr> ncols = 0, rows = [[]] \<rparr> = Inl IndexError"
  by (simp add: evaluate_small call_without_columns wf_tensor_def)


section \<open>Independence of the scores\<close>

text \<open>
  Claim C9: for a fixed criterion and fixed \<open>input_ids\<close>, the result is the same for any
  two values of \<open>scores\<close> (of any types); the call is a function of its arguments.
\<close>

theorem StopStringCriteria_call_ignores_scores:
  "StopStringCriteria_call c input_ids scores1 = StopStringCriteria_call c input_ids scores2"
  by (simp add: StopStringCriteria_call_def)

theorem StopStringCriteria_call_ignores_scores_witness:
  "StopStringCriteria_call small_crit (one_row [0, 1]) (0 :: nat) =
   StopStringCriteria_call small_crit (one_row [0, 1]) True"
  by (rule StopStringCriteria_call_ignores_scores)


section \<open>The trailing window\<close>

lemma fold_max_eq_Max: "xs \<noteq> [] \<Longrightarrow> fold max xs (0::nat) = Max (set xs)"
proof (cases xs)
  case Nil
  assume "xs \<noteq> []"
  with Nil show ?thesis by simp
next
  case (Cons a list)
  have "fold max (a # list) 0 = fold max list a" by simp
  with Cons show ?thesis using Max.set_eq_fold [of a list] by simp
qed

lemma init_maximum_token_len:
  assumes "StopStringCriteria_init v arg = Inr c"
  shows "maximum_token_len c = Max (set (map length (stop_list arg)))"
  using assms
  by (auto simp: StopStringCriteria_init_def py_max_def Let_def fold_max_eq_Max
           split: sum.splits if_splits prod.splits)

text \<open>
  A window of exactly \<open>K\<close> columns is what the slice \<open>input_ids[:, -K:]\<close> keeps of a row
  that ends with it.
\<close>

lemma last_columns_append: "0 < K \<Longrightarrow> length w = K \<Longrightarrow> last_columns K (p @ w) = w"
  by (simp add: last_columns_def)

lemma map_last_columns_map2:
  "length pre = length win \<Longrightarrow> \<forall>w \<in> set win. length w = K \<Longrightarrow> 0 < K \<Longrightarrow>
   map (last_columns K) (map2 (@) pre win) = win"
  by (induction pre win rule: list_induct2) (simp_all add: last_columns_append)

text \<open>
  Claim C4: the result depends only on the last \<open>K\<close> token ids of each row, \<open>K\<close> the
  length of the longest stop string.  Two batches whose rows end with the same windows
  \<open>win\<close> of \<open>K\<close> ids each, after any earlier columns \<open>pre1\<close> and \<open>pre2\<close> (of any number
  and content), get the same result from a constructed criterion.  A constructed criterion
  has a stop string that is not empty, so that \<open>K\<close> is positive and the slice never keeps
  the whole history.
\<close>

theorem call_ignores_columns_before_window:
  assumes "StopStringCriteria_init v arg = Inr c"
    and "K = Max (set (map length (stop_list arg)))"
    and "length pre1 = length win" and "length pre2 = length win"
    and "\<forall>w \<in> set win. length w = K"
  shows "StopStringCriteria_call c \<lparr> ncols = n1 + K, rows = map2 (@) pre1 win \<rparr> scores =
         StopStringCriteria_call c \<lparr> ncols = n2 + K, rows = map2 (@) pre2 win \<rparr> scores"
proof -
  obtain s where s: "s \<in> set (stop_list arg)" "s \<noteq> []"
    using init_some_stop_string_nonempty [OF assms(1)] by blast
  have "length s \<le> K" unfolding assms(2) using s(1) by (intro Max_ge) auto
  moreover have "0 < length s" using s(2) by simp
  ultimately have K: "0 < K" by linarith
  have mt: "maximum_token_len c = K"
    using init_maximum_token_len [OF assms(1)] assms(2) by simp
  have "trailing_columns K \<lparr> ncols = n1 + K, rows = map2 (@) pre1 win \<rparr> = \<lparr> ncols = K, rows = win \<rparr>"
    using K map_last_columns_map2 [OF assms(3) assms(5) K] by (simp add: trailing_columns_def)
  moreover have "trailing_columns K \<lparr> ncols = n2 + K, rows = map2 (@) pre2 win \<rparr> = \<lparr> ncols = K, rows = win \<rparr>"
    using K map_last_columns_map2 [OF assms(4) assms(5) K] by (simp add: trailing_columns_def)
  ultimately show ?thesis by (simp add: StopStringCriteria_call_def mt)
qed

theorem call_ignores_columns_before_window_witness:
  "StopStringCriteria_call small_crit \<lparr> ncols = 1 + 4, rows = [[1, 0, 0, 0, 1]] \<rparr> () =
   StopStringCriteria_call small_crit \<lparr> ncols = 2 + 4, rows = [[0, 0, 0, 0, 0, 1]] \<rparr> ()
   \<and> StopStringCriteria_call small_crit \<lparr> ncols = 1 + 4, rows = [[1, 0, 0, 0, 1]] \<rparr> () = Inr [True]
   \<and> StopStringCriteria_call small_crit \<lparr> ncols = 1 + 4, rows = [[1, 0, 0, 1, 0]] \<rparr> () = Inr [False]"
proof -
  have "StopStringCriteria_call small_crit \<lparr> ncols = 1 + 4, rows = map2 (@) [[1]] [[0, 0, 0, 1]] \<rparr> () =
        StopStringCriteria_call small_crit \<lparr> ncols = 2 + 4, rows = map2 (@) [[0, 0]] [[0, 0, 0, 1]] \<rparr> ()"
    by (rule call_ignores_columns_before_window [OF small_init])
       (simp_all add: stop_list_def ascii_def)
  moreover have "StopStringCriteria_call small_crit \<lparr> ncols = 1 + 4, rows = [[1, 0, 0, 0, 1]] \<rparr> () = Inr [True]"
    by (simp add: call_defs small_crit_def)
  moreover have "StopStringCriteria_call small_crit \<lparr> ncols = 1 + 4, rows = [[1, 0, 0, 1, 0]] \<rparr> () = Inr [False]"
    by (simp add: call_defs small_crit_def)
  ultimately show ?thesis by simp
qed


section \<open>The list of criteria\<close>

lemma tensor_or_same_length:
  "length a = length b \<Longrightarrow> tensor_or a b = Inr (map2 (\<or>) a b)"
  by (simp add: tensor_or_def)

lemma fold_criteria_or:
  assumes "\<forall>c \<in> set cl. \<exists>r. c t s = Inr r \<and> length r = n"
      and "length acc = n"
  shows "fold_err (\<lambda>criteria is_done.
             case criteria t s of Inl e \<Rightarrow> Inl e | Inr r \<Rightarrow> tensor_or is_done r) cl acc =
         Inr (map (\<lambda>i. acc ! i \<or> (\<exists>c \<in> set cl. \<exists>r. c t s = Inr r \<and> r ! i)) [0..<n])"
  using assms
proof (induction cl arbitrary: acc)
  case Nil
  then have "map ((!) acc) [0..<n] = acc" by (auto simp: map_nth)
  then show ?case by simp
next
  case (Cons c cl)
  from Cons.prems obtain r where r: "c t s = Inr r" "length r = n" by auto
  let ?acc = "map2 (\<or>) acc r"
  have step: "tensor_or acc r = Inr ?acc"
    using Cons.prems r by (simp add: tensor_or_same_length)
  have len: "length ?acc = n" using Cons.prems r by simp
  have ih: "fold_err (\<lambda>criteria is_done.
             case criteria t s of Inl e \<Rightarrow> Inl e | Inr r \<Rightarrow> tensor_or is_done r) cl ?acc =
         Inr (map (\<lambda>i. ?acc ! i \<or> (\<exists>c \<in> set cl. \<exists>r. c t s = Inr r \<and> r ! i)) [0..<n])"
    using Cons.IH [OF _ len] Cons.prems by simp
  have "map (\<lambda>i. ?acc ! i \<or> (\<exists>c \<in> set cl. \<exists>r. c t s = Inr r \<and> r ! i)) [0..<n] =
        map (\<lambda>i. acc ! i \<or> (\<exists>c' \<in> set (c # cl). \<exists>r. c' t s = Inr r \<and> r ! i)) [0..<n]"
    using Cons.prems r by (intro map_cong refl) auto
  with ih step r show ?case by simp
qed

text \<open>
  Claim C10: when every member criterion returns one boolean per row, the list returns
  per row the disjunction of the members' results; the empty list returns false for
  every row.
\<close>

theorem StoppingCriteriaList_call_is_or:
  assumes "\<forall>c \<in> set cl. \<exists>r. c input_ids scores = Inr r \<and> length r = length (rows input_ids)"
  shows "StoppingCriteriaList_call cl input_ids scores =
           Inr (map (\<lambda>i. \<exists>c \<in> set cl. \<exists>r. c input_ids scores = Inr r \<and> r ! i)
                  [0..<length (rows input_ids)])
         \<and> StoppingCriteriaList_call [] input_ids scores =
           Inr (replicate (length (rows input_ids)) False)"
proof
  show "StoppingCriteriaList_call cl input_ids scores =
           Inr (map (\<lambda>i. \<exists>c \<in> set cl. \<exists>r. c input_ids scores = Inr r \<and> r ! i)
                  [0..<length (rows input_ids)])"
    unfolding StoppingCriteriaList_call_def
    using fold_criteria_or [OF assms, of "replicate (length (rows input_ids)) False"]
    by simp
  show "StoppingCriteriaList_call [] input_ids scores =
           Inr (replicate (length (rows input_ids)) False)"
    by (simp add: StoppingCriteriaList_call_def)
qed

theorem StoppingCriteriaList_call_is_or_witness:
  "StoppingCriteriaList_call [MaxLengthCriteria_call 5, StopStringCriteria_call small_crit]
     (one_row [0, 1]) () = Inr [True]"
  using StoppingCriteriaList_call_is_or
          [of "[MaxLengthCriteria_call 5, StopStringCriteria_call small_crit]" "one_row [0, 1]" "()"]
  by (simp add: small_call_st_op MaxLengthCriteria_call_def)


section \<open>Where a stop string may end\<close>

text \<open>
  Claim C1, as stated: a row is reported stopped only if the concatenated text ends with a
  stop string.  The sequence \<open>[st, opera]\<close> is reported stopped for the stop string
  \<open>stop\<close>, and \<open>stopera\<close> does not end with \<open>stop\<close>: the occurrence ends inside the last
  token, two characters into it.
\<close>

theorem stopped_without_ending_in_stop_string:
  "evaluate dense_vocab (Str (ascii ''stop'')) (one_row [0, 3]) = Inr [True]
   \<and> \<not> suffix (ascii ''stop'') (ascii ''st'' @ ascii ''opera'')"
proof -
  have "evaluate dense_vocab (Str (ascii ''stop'')) (one_row [0, 3]) = Inr [True]"
    by (simp only: evaluate_dense dense_calls)
  moreover have "\<not> suffix (ascii ''stop'') (ascii ''st'' @ ascii ''opera'')"
    by (simp add: ascii_def suffix_def append_eq_Cons_conv)
  ultimately show ?thesis by blast
qed

text \<open>
  Claim C1, as the code has it: for a criterion constructed from a vocabulary with distinct,
  non-negative ids, and a batch with at least one column whose entries are ids of the
  vocabulary, the call reports a row stopped if and only if some stop string occurs in the
  concatenation of the texts of the row's tokens and the occurrence ends inside the last
  token: after its first character, or after any later one up to its last.  Characters of
  the last token after the occurrence do not count; an occurrence that ends before the last
  token begins does not stop the row.
\<close>

theorem call_stops_iff_stop_string_ends_in_last_token:
  assumes "StopStringCriteria_init v arg = Inr c"
    and "distinct (map snd v)"
    and "\<forall>k \<in> snd ` set v. 0 \<le> k"
    and "wf_tensor t" and "0 < ncols t"
    and "\<forall>row \<in> set (rows t). set row \<subseteq> snd ` set v"
  shows "StopStringCriteria_call c t scores =
           Inr (map (row_should_stop v (stop_list arg)) (rows t))"
proof -
  have "\<forall>(tok, k) \<in> set v. 0 \<le> k \<and> k < int (length v)"
    using assms(3) init_ids_below_length [OF assms(1)] by force
  then show ?thesis by (rule call_rows [OF assms(1,2) _ assms(4,5,6)])
qed

theorem call_stops_iff_stop_string_ends_in_last_token_witness:
  "StopStringCriteria_call dense_crit (one_row [0, 3]) () = Inr [True]
   \<and> StopStringCriteria_call dense_crit (one_row [2, 8]) () = Inr [False]"
proof -
  have d: "distinct (map snd dense_vocab)" "\<forall>k \<in> snd ` set dense_vocab. 0 \<le> k"
    by (simp_all add: dense_vocab_def)
  have w: "wf_tensor (one_row r)" for r by (simp add: wf_tensor_def)
  have 1: "StopStringCriteria_call dense_crit (one_row [0, 3]) () =
        Inr (map (row_should_stop dense_vocab (stop_list (Str (ascii ''stop'')))) (rows (one_row [0, 3])))"
    by (rule call_stops_iff_stop_string_ends_in_last_token [OF dense_init d w])
       (simp_all add: dense_vocab_def)
  have 2: "StopStringCriteria_call dense_crit (one_row [2, 8]) () =
        Inr (map (row_should_stop dense_vocab (stop_list (Str (ascii ''stop'')))) (rows (one_row [2, 8])))"
    by (rule call_stops_iff_stop_string_ends_in_last_token [OF dense_init d w])
       (simp_all add: dense_vocab_def)
  have "row_should_stop dense_vocab (stop_list (Str (ascii ''stop''))) [0, 3]"
    by (simp add: row_should_stop_def ends_in_last_token_def token_text_def cleaned_def
          cleanup_token_def dense_vocab_def stop_list_def ascii_def suffix_to_prefix)
  moreover have "\<not> row_should_stop dense_vocab (stop_list (Str (ascii ''stop''))) [2, 8]"
    by (simp add: row_should_stop_def ends_in_last_token_def token_text_def cleaned_def
          cleanup_token_def dense_vocab_def stop_list_def ascii_def suffix_to_prefix)
  ultimately show ?thesis using 1 2 by simp
qed


section \<open>Configurations that construction refuses\<close>






section \<open>A stop string that no token aligns with\<close>





end
